theory Spec2Isabelle
  imports Main "HOL-Library.Multiset" "HOL-Library.Sublist"
begin

unbundle bit_operations_syntax

section \<open>Machine integers and failures\<close>

text \<open>
  The C++ code mixes \<open>int\<close> (32 bit, signed), \<open>uint32_t\<close>, \<open>uint64_t\<close> and \<open>size_t\<close>
  (64 bit, unsigned).  Values are modelled as mathematical integers; every place where the
  code narrows the result of an unsigned computation to \<open>int\<close>, or hands an \<open>int\<close> to a
  \<open>size_t\<close> parameter, is written out with the conversions below.
\<close>

definition to_int32 :: "int \<Rightarrow> int" where
  "to_int32 x = (x + 2 ^ 31) mod 2 ^ 32 - 2 ^ 31"

definition to_uint32 :: "int \<Rightarrow> int" where
  "to_uint32 x = x mod 2 ^ 32"

definition to_size_t :: "int \<Rightarrow> nat" where
  "to_size_t x = nat (x mod 2 ^ 64)"

text \<open>
  Failures of the code are values: \<open>undefined_access\<close> stands for an unchecked access
  outside a container (\<open>cigar[0]\<close> of an empty CIGAR, \<open>find(name)->second\<close> of an unknown
  name, \<open>seq[i]\<close> beyond the terminator), \<open>out_of_range\<close> for the exception
  \<open>std::string::substr\<close> throws when its start lies behind the end of the string, and
  \<open>invalid_argument\<close> for the exception documented for \<open>utility::idx_to_base\<close>,
  \<open>runtime_error\<close> for the one documented for a shell command that exits with a status
  other than 0.
\<close>

datatype error = undefined_access | out_of_range | invalid_argument | runtime_error

section \<open>Alignment records and overhangs\<close>

text \<open>
  The fields of a SeqAn alignment record that the code reads.  The count of a CIGAR element
  is \<open>count_c\<close> and the sequence of a record \<open>seq_r\<close> here, \<open>count\<close> and \<open>seq\<close> being taken.
\<close>

record CigarElement =
  operation :: char
  count_c :: nat

record BamAlignmentRecord =
  qName :: string
  flag :: nat
  beginPos :: int
  cigar :: "CigarElement list"
  seq_r :: string

text \<open>
  Modelled from the spec: class \<open>Extension\<close> (extension.h is not part of the sources).  An
  overhang carries the id of its read, its oriented sequence, the walker cursor
  \<open>curr_pos\<close> (initially 0) and the flag \<open>is_droped\<close>; the constructor used by the
  extractor is \<open>Extension(read_id, seq, drop)\<close>.
\<close>

record Extension =
  read_id :: nat
  seq :: string
  curr_pos :: nat
  is_droped :: bool

definition new_Extension :: "nat \<Rightarrow> string \<Rightarrow> bool \<Rightarrow> Extension" where
  "new_Extension rid s is_drop = \<lparr>read_id = rid, seq = s, curr_pos = 0, is_droped = is_drop\<rparr>"

text \<open>
  The constants of \<open>scaffolder.cpp\<close>: the SAM flag bit of an unmapped read, the two margins,
  the minimum coverage of the walker and the default of the global \<open>max_ext_length\<close>.
\<close>

definition UNMAPPED :: nat where
  "UNMAPPED = 4"

definition INNER_MARGIN :: int where
  "INNER_MARGIN = 5"

definition OUTER_MARGIN :: int where
  "OUTER_MARGIN = 15"

definition MIN_COVERAGE :: nat where
  "MIN_COVERAGE = 5"

definition max_ext_length :: int where
  "max_ext_length = 1000"

section \<open>CIGAR geometry\<close>

text \<open>
  The two classifications of a CIGAR operation, as the lambdas of
  \<open>find_possible_extensions\<close> define them, \<open>cigar[i]\<close> without a bounds check, and
  \<open>std::string::substr\<close>.
\<close>

definition contributes_to_seq_len :: "char \<Rightarrow> int" where
  "contributes_to_seq_len c =
     (if c = CHR ''M'' then 1
      else if c = CHR ''I'' then 1
      else if c = CHR ''S'' then 1
      else if c = CHR ''X'' then 1
      else if c = CHR ''='' then 1
      else 0)"

definition contributes_to_contig_len :: "char \<Rightarrow> int" where
  "contributes_to_contig_len c =
     (if c = CHR ''M'' then 1
      else if c = CHR ''D'' then 1
      else if c = CHR ''X'' then 1
      else if c = CHR ''='' then 1
      else 0)"

text \<open>The loop over the CIGAR that accumulates the two \<open>int\<close> counters.\<close>

fun cigar_sizes :: "CigarElement list \<Rightarrow> int \<times> int \<Rightarrow> int \<times> int" where
  "cigar_sizes [] acc = acc"
| "cigar_sizes (e # es) (used_read_size, used_contig_size) =
     cigar_sizes es
       (if contributes_to_seq_len (operation e) \<noteq> 0
        then to_int32 (used_read_size + int (count_c e)) else used_read_size,
        if contributes_to_contig_len (operation e) \<noteq> 0
        then to_int32 (used_contig_size + int (count_c e)) else used_contig_size)"

definition cigar_at :: "CigarElement list \<Rightarrow> int \<Rightarrow> error + CigarElement" where
  "cigar_at cs i =
     (if 0 \<le> i \<and> i < int (length cs) then Inr (cs ! nat i) else Inl undefined_access)"

definition substr :: "string \<Rightarrow> nat \<Rightarrow> nat \<Rightarrow> error + string" where
  "substr s pos n = (if length s < pos then Inl out_of_range else Inr (take n (drop pos s)))"

section \<open>Overhang extractor\<close>

subsection \<open>Left end\<close>

definition left_len :: "BamAlignmentRecord \<Rightarrow> int" where
  "left_len r = to_int32 (int (count_c (cigar r ! 0)) - to_uint32 (beginPos r))"

definition left_start :: "BamAlignmentRecord \<Rightarrow> int" where
  "left_start r =
     (if left_len r \<le> max_ext_length then 0 else left_len r - max_ext_length)"

definition left_candidate :: "BamAlignmentRecord \<Rightarrow> error + bool" where
  "left_candidate r =
     (if flag r AND UNMAPPED \<noteq> 0 then Inr False
      else case cigar_at (cigar r) 0 of
             Inl e \<Rightarrow> Inl e
           | Inr c0 \<Rightarrow>
               Inr (operation c0 = CHR ''S'' \<and> beginPos r < OUTER_MARGIN \<and>
                    to_uint32 (beginPos r) < int (count_c c0)))"

text \<open>
  The overhangs one record adds to the left list: none, a live one, or a dropped
  placeholder.
\<close>

definition left_overhang ::
  "BamAlignmentRecord \<Rightarrow> (string \<rightharpoonup> nat) \<Rightarrow> error + Extension list" where
  "left_overhang r read_name_to_id =
     (case left_candidate r of
        Inl e \<Rightarrow> Inl e
      | Inr False \<Rightarrow> Inr []
      | Inr True \<Rightarrow>
          (case read_name_to_id (qName r) of
             None \<Rightarrow> Inl undefined_access
           | Some rid \<Rightarrow>
               if beginPos r < INNER_MARGIN
               then (case substr (seq_r r) (to_size_t (left_start r)) (to_size_t max_ext_length) of
                       Inl e \<Rightarrow> Inl e
                     | Inr extension \<Rightarrow> Inr [new_Extension rid (rev extension) False])
               else Inr [new_Extension rid [] True]))"

subsection \<open>Right end\<close>

definition right_clipping_len :: "BamAlignmentRecord \<Rightarrow> int" where
  "right_clipping_len r = to_int32 (int (count_c (last (cigar r))))"

definition used_read_size :: "BamAlignmentRecord \<Rightarrow> int" where
  "used_read_size r = to_int32 (fst (cigar_sizes (cigar r) (0, 0)) - right_clipping_len r)"

definition used_contig_size :: "BamAlignmentRecord \<Rightarrow> int" where
  "used_contig_size r = snd (cigar_sizes (cigar r) (0, 0))"

definition right_margin :: "BamAlignmentRecord \<Rightarrow> nat \<Rightarrow> int" where
  "right_margin r contig_len =
     to_int32 (int contig_len - (beginPos r + used_contig_size r))"

definition right_len :: "BamAlignmentRecord \<Rightarrow> nat \<Rightarrow> int" where
  "right_len r contig_len =
     to_int32 (right_clipping_len r - (int contig_len - (beginPos r + used_contig_size r)))"

definition right_offset :: "BamAlignmentRecord \<Rightarrow> nat \<Rightarrow> int" where
  "right_offset r contig_len =
     used_read_size r + (right_clipping_len r - right_len r contig_len)"

definition right_overhang ::
  "BamAlignmentRecord \<Rightarrow> (string \<rightharpoonup> nat) \<Rightarrow> nat \<Rightarrow> error + Extension list" where
  "right_overhang r read_name_to_id contig_len =
     (if flag r AND UNMAPPED \<noteq> 0 then Inr []
      else case cigar_at (cigar r) (int (length (cigar r)) - 1) of
             Inl e \<Rightarrow> Inl e
           | Inr cl \<Rightarrow>
               if operation cl \<noteq> CHR ''S'' then Inr []
               else if OUTER_MARGIN < right_margin r contig_len then Inr []
               else if right_len r contig_len \<le> 0 then Inr []
               else (case substr (seq_r r) (to_size_t (right_offset r contig_len))
                                 (to_size_t max_ext_length) of
                       Inl e \<Rightarrow> Inl e
                     | Inr extension \<Rightarrow>
                         (case read_name_to_id (qName r) of
                            None \<Rightarrow> Inl undefined_access
                          | Some rid \<Rightarrow>
                              let is_drop = INNER_MARGIN < right_margin r contig_len
                              in Inr [new_Extension rid (if is_drop then [] else extension) is_drop])))"

subsection \<open>The loop over the records\<close>

fun find_possible_extensions ::
  "BamAlignmentRecord list \<Rightarrow> Extension list \<Rightarrow> Extension list \<Rightarrow> (string \<rightharpoonup> nat) \<Rightarrow> nat
   \<Rightarrow> error + (Extension list \<times> Extension list)" where
  "find_possible_extensions [] left_ext_reads right_ext_reads read_name_to_id contig_len =
     Inr (left_ext_reads, right_ext_reads)"
| "find_possible_extensions (r # rs) left_ext_reads right_ext_reads read_name_to_id contig_len =
     (case left_overhang r read_name_to_id of
        Inl e \<Rightarrow> Inl e
      | Inr l \<Rightarrow>
          (case right_overhang r read_name_to_id contig_len of
             Inl e \<Rightarrow> Inl e
           | Inr rr \<Rightarrow>
               find_possible_extensions rs (left_ext_reads @ l) (right_ext_reads @ rr)
                 read_name_to_id contig_len))"

section \<open>Bases and histograms\<close>

text \<open>
  The mapping of \<open>utility::base_to_idx\<close> and \<open>utility::idx_to_base\<close> as documented in
  utility.h: A = 0, T = 1, G = 2, C = 3, and \<open>std::invalid_argument\<close> for anything else.
\<close>

definition base_to_idx :: "char \<Rightarrow> error + nat" where
  "base_to_idx base =
     (if base = CHR ''A'' then Inr 0
      else if base = CHR ''T'' then Inr 1
      else if base = CHR ''G'' then Inr 2
      else if base = CHR ''C'' then Inr 3
      else Inl invalid_argument)"

definition idx_to_base :: "nat \<Rightarrow> error + char" where
  "idx_to_base idx =
     (if idx = 0 then Inr CHR ''A''
      else if idx = 1 then Inr CHR ''T''
      else if idx = 2 then Inr CHR ''G''
      else if idx = 3 then Inr CHR ''C''
      else Inl invalid_argument)"

definition NUM_BASES :: nat where
  "NUM_BASES = 4"

record BasesCounter =
  count_b :: "nat list"
  coverage :: nat
  max_idx :: nat

text \<open>
  Modelled from the spec: \<open>bases::count_bases\<close> and \<open>BasesCounter\<close> (bases.h and bases.cpp
  are not part of the sources).  Every overhang that is not dropped is sampled at
  \<open>curr_pos + offset\<close>, provided its base at \<open>curr_pos\<close> passes the eligibility filter; a
  position behind the end of the sequence and a character outside A, T, G, C contribute
  nothing.  \<open>coverage\<close> is the sum of the four bins and \<open>max_idx\<close> the bin with the highest
  count, the lowest index winning a tie.
\<close>

definition sample :: "(char \<Rightarrow> bool) \<Rightarrow> nat \<Rightarrow> Extension \<Rightarrow> nat option" where
  "sample is_read_eligible offset e =
     (if is_droped e then None
      else if curr_pos e + offset < length (seq e) \<and> is_read_eligible (seq e ! curr_pos e)
      then (case base_to_idx (seq e ! (curr_pos e + offset)) of
              Inl _ \<Rightarrow> None
            | Inr i \<Rightarrow> Some i)
      else None)"

definition argmax :: "nat list \<Rightarrow> nat" where
  "argmax cnt = fold (\<lambda>i m. if cnt ! m < cnt ! i then i else m) [0..<length cnt] 0"

definition count_bases :: "Extension list \<Rightarrow> (char \<Rightarrow> bool) \<Rightarrow> nat \<Rightarrow> BasesCounter" where
  "count_bases extensions is_read_eligible offset =
     (let cnt = map (\<lambda>i. length (filter (\<lambda>e. sample is_read_eligible offset e = Some i) extensions))
                    [0..<NUM_BASES]
      in \<lparr>count_b = cnt, coverage = sum_list cnt, max_idx = argmax cnt\<rparr>)"

section \<open>Consensus walker\<close>

text \<open>
  Modelled from the spec: \<open>Extension::do_operation\<close>.  A match and a mismatch advance the
  cursor by one, a deletion leaves it, an insertion advances it by two.
\<close>

datatype operation_t = match | deletion_1 | mismatch | insertion_1

definition do_operation :: "operation_t \<Rightarrow> Extension \<Rightarrow> Extension" where
  "do_operation oper e =
     (case oper of
        match \<Rightarrow> e\<lparr>curr_pos := curr_pos e + 1\<rparr>
      | deletion_1 \<Rightarrow> e
      | mismatch \<Rightarrow> e\<lparr>curr_pos := curr_pos e + 1\<rparr>
      | insertion_1 \<Rightarrow> e\<lparr>curr_pos := curr_pos e + 2\<rparr>)"

text \<open>
  \<open>seq[i]\<close> of a \<open>std::string\<close>: the character at \<open>i\<close>, the terminator at \<open>i = length\<close>,
  undefined behind it.
\<close>

definition string_at :: "string \<Rightarrow> nat \<Rightarrow> error + char" where
  "string_at s i =
     (if i < length s then Inr (s ! i)
      else if i = length s then Inr (CHR 0x00)
      else Inl undefined_access)"

text \<open>
  The test \<open>extension->curr_pos() >= seq.length() - 2\<close> is evaluated in \<open>size_t\<close>: for a
  sequence of fewer than two characters the right-hand side wraps around.
\<close>

definition less_than_two_left :: "Extension \<Rightarrow> bool" where
  "less_than_two_left e = (to_size_t (int (length (seq e)) - 2) \<le> curr_pos e)"

text \<open>The body of the loop over the overhangs, for one overhang.\<close>

definition realign :: "char \<Rightarrow> char \<Rightarrow> Extension \<Rightarrow> error + Extension" where
  "realign output_base next_mv e =
     (if is_droped e then Inr e
      else if less_than_two_left e then Inr (e\<lparr>is_droped := True\<rparr>)
      else case string_at (seq e) (curr_pos e) of
             Inl x \<Rightarrow> Inl x
           | Inr current_base \<Rightarrow>
               (case string_at (seq e) (curr_pos e + 1) of
                  Inl x \<Rightarrow> Inl x
                | Inr next_base \<Rightarrow>
                    if current_base = output_base then Inr (do_operation match e)
                    else if current_base = next_mv then Inr (do_operation deletion_1 e)
                    else if next_base = next_mv then Inr (do_operation mismatch e)
                    else if next_base = output_base then Inr (do_operation insertion_1 e)
                    else Inr (e\<lparr>is_droped := True\<rparr>)))"

fun realign_all :: "char \<Rightarrow> char \<Rightarrow> Extension list \<Rightarrow> error + Extension list" where
  "realign_all output_base next_mv [] = Inr []"
| "realign_all output_base next_mv (e # es) =
     (case realign output_base next_mv e of
        Inl x \<Rightarrow> Inl x
      | Inr e' \<Rightarrow>
          (case realign_all output_base next_mv es of
             Inl x \<Rightarrow> Inl x
           | Inr es' \<Rightarrow> Inr (e' # es')))"

text \<open>
  One round of the \<open>for (i = 0; true; ++i)\<close> loop of \<open>get_extension_mv_realign\<close>: it
  either leaves the loop, fails, or emits a base and moves the overhangs.  The test
  \<open>next_bases.coverage < 0.6 * MIN_COVERAGE\<close> compares an integer with the \<open>double\<close>
  product \<open>0.6 * 5\<close>, which is exactly 3; it is written here in integers.
\<close>

datatype round = Stop | Fail error | Emit char "Extension list"

definition walker_round :: "Extension list \<Rightarrow> round" where
  "walker_round extensions =
     (let bases = count_bases extensions (\<lambda>c. True) 0
      in if MIN_COVERAGE \<le> coverage bases
         then (case idx_to_base (max_idx bases) of
                 Inl x \<Rightarrow> Fail x
               | Inr output_base \<Rightarrow>
                   (let next_bases = count_bases extensions (\<lambda>c. c = output_base) 1
                    in case idx_to_base (max_idx next_bases) of
                         Inl x \<Rightarrow> Fail x
                       | Inr next_mv \<Rightarrow>
                           if 10 * coverage next_bases < 6 * MIN_COVERAGE then Stop
                           else (case realign_all output_base next_mv extensions of
                                   Inl x \<Rightarrow> Fail x
                                 | Inr extensions' \<Rightarrow> Emit output_base extensions')))
         else Stop)"

section \<open>Termination of the walker\<close>

text \<open>
  Every round that emits a base moves or drops at least one overhang whose current base is
  the emitted one, so the number of characters the live overhangs still hold decreases.
\<close>

definition remaining :: "Extension \<Rightarrow> nat" where
  "remaining e = (if is_droped e then 0 else Suc (length (seq e) - curr_pos e))"

lemma realign_remaining_le:
  "realign ob nm e = Inr e' \<Longrightarrow> remaining e' \<le> remaining e"
  by (auto simp: realign_def remaining_def do_operation_def split: if_splits sum.splits)

lemma realign_remaining_less:
  "realign ob nm e = Inr e' \<Longrightarrow> \<not> is_droped e \<Longrightarrow> curr_pos e < length (seq e) \<Longrightarrow>
   seq e ! curr_pos e = ob \<Longrightarrow> remaining e' < remaining e"
  by (auto simp: realign_def remaining_def do_operation_def string_at_def split: if_splits sum.splits)

lemma realign_all_remaining_le:
  "realign_all ob nm es = Inr es' \<Longrightarrow> sum_list (map remaining es') \<le> sum_list (map remaining es)"
proof (induction es arbitrary: es')
  case Nil
  then show ?case by simp
next
  case (Cons e es)
  then show ?case
    by (auto split: sum.splits dest!: realign_remaining_le intro: add_mono)
qed

lemma realign_all_remaining_less:
  "realign_all ob nm es = Inr es' \<Longrightarrow>
   \<exists>e\<in>set es. \<not> is_droped e \<and> curr_pos e < length (seq e) \<and> seq e ! curr_pos e = ob \<Longrightarrow>
   sum_list (map remaining es') < sum_list (map remaining es)"
proof (induction es arbitrary: es')
  case Nil
  then show ?case by simp
next
  case (Cons e es)
  from Cons.prems(1) obtain e' es1 where e': "realign ob nm e = Inr e'"
    and es1: "realign_all ob nm es = Inr es1" and es': "es' = e' # es1"
    by (auto split: sum.splits)
  show ?case
  proof (cases "\<not> is_droped e \<and> curr_pos e < length (seq e) \<and> seq e ! curr_pos e = ob")
    case True
    then have "remaining e' < remaining e" using realign_remaining_less [OF e'] by simp
    moreover have "sum_list (map remaining es1) \<le> sum_list (map remaining es)"
      using realign_all_remaining_le [OF es1] .
    ultimately show ?thesis using es' by simp
  next
    case False
    with Cons.prems(2) have "\<exists>e\<in>set es. \<not> is_droped e \<and> curr_pos e < length (seq e) \<and> seq e ! curr_pos e = ob"
      by auto
    from Cons.IH [OF es1 this] realign_remaining_le [OF e'] show ?thesis using es' by simp
  qed
qed

lemma four_list: "length (cnt::'a list) = 4 \<Longrightarrow> \<exists>a b c d. cnt = [a, b, c, d]"
  by (cases cnt; cases "tl cnt"; cases "tl (tl cnt)"; cases "tl (tl (tl cnt))") auto

lemma argmax_four:
  "argmax [a, b, c, d] =
     (if a < b then (if b < c then (if c < d then 3 else 2) else (if b < d then 3 else 1))
      else (if a < c then (if c < d then 3 else 2) else (if a < d then 3 else 0)))"
  by (simp add: argmax_def upt_rec numeral_eq_Suc)

lemma argmax4:
  assumes "length cnt = 4"
  shows "argmax cnt < 4" and "i < 4 \<Longrightarrow> cnt ! i \<le> cnt ! argmax cnt"
proof -
  from four_list [OF assms] obtain a b c d where c: "cnt = [a, b, c, d]" by blast
  show "argmax cnt < 4" unfolding c argmax_four by simp
  assume "i < 4"
  then have "i = 0 \<or> i = 1 \<or> i = 2 \<or> i = 3" by linarith
  then show "cnt ! i \<le> cnt ! argmax cnt" unfolding c argmax_four by auto
qed

lemma base_idx_inverse: "base_to_idx c = Inr i \<Longrightarrow> idx_to_base i = Inr c"
  by (auto simp: base_to_idx_def idx_to_base_def split: if_splits)

lemma count_bases_fields:
  "length (count_b (count_bases es p off)) = 4"
  "coverage (count_bases es p off) = sum_list (count_b (count_bases es p off))"
  "max_idx (count_bases es p off) = argmax (count_b (count_bases es p off))"
  "i < 4 \<Longrightarrow> count_b (count_bases es p off) ! i = length (filter (\<lambda>e. sample p off e = Some i) es)"
  by (simp_all add: count_bases_def Let_def NUM_BASES_def del: upt_Suc)

lemma sum4: "length (cnt::nat list) = 4 \<Longrightarrow> sum_list cnt = cnt ! 0 + cnt ! 1 + cnt ! 2 + cnt ! 3"
  using four_list [of cnt] by auto

lemma max_bin_positive:
  assumes "0 < coverage (count_bases es p off)"
  shows "0 < count_b (count_bases es p off) ! max_idx (count_bases es p off)"
proof -
  let ?c = "count_b (count_bases es p off)"
  have l: "length ?c = 4" by (rule count_bases_fields)
  from assms have "0 < ?c ! 0 + ?c ! 1 + ?c ! 2 + ?c ! 3"
    using sum4 [OF l] by (simp add: count_bases_fields(2))
  then have "0 < ?c ! 0 \<or> 0 < ?c ! 1 \<or> 0 < ?c ! 2 \<or> 0 < ?c ! 3" by linarith
  moreover have "(0::nat) < 4" "(1::nat) < 4" "(2::nat) < 4" "(3::nat) < 4" by simp_all
  ultimately obtain i where i: "i < 4 \<and> 0 < ?c ! i" by blast
  then have "?c ! i \<le> ?c ! argmax ?c" using argmax4(2) [OF l] by blast
  with i show ?thesis by (simp add: count_bases_fields(3))
qed


lemma sample_current:
  "sample (\<lambda>c. True) 0 e = Some i \<Longrightarrow> idx_to_base i = Inr ob \<Longrightarrow>
     \<not> is_droped e \<and> curr_pos e < length (seq e) \<and> seq e ! curr_pos e = ob"
proof -
  assume s: "sample (\<lambda>c. True) 0 e = Some i" and i: "idx_to_base i = Inr ob"
  from s have live: "\<not> is_droped e" and pos: "curr_pos e < length (seq e)"
    by (simp_all add: sample_def split: if_splits)
  from s live pos have "base_to_idx (seq e ! curr_pos e) = Inr i"
    by (simp add: sample_def split: sum.splits)
  from base_idx_inverse [OF this] i have "seq e ! curr_pos e = ob" by simp
  with live pos show ?thesis by simp
qed

lemma majority_base_present:
  assumes "0 < coverage (count_bases es (\<lambda>c. True) 0)"
    and "idx_to_base (max_idx (count_bases es (\<lambda>c. True) 0)) = Inr ob"
  shows "\<exists>e\<in>set es. \<not> is_droped e \<and> curr_pos e < length (seq e) \<and> seq e ! curr_pos e = ob"
proof -
  let ?b = "count_bases es (\<lambda>c. True) 0"
  have m: "max_idx ?b < 4"
    using argmax4(1) [OF count_bases_fields(1)] by (simp add: count_bases_fields(3))
  from max_bin_positive [OF assms(1)]
  have "0 < length (filter (\<lambda>e. sample (\<lambda>c. True) 0 e = Some (max_idx ?b)) es)"
    using count_bases_fields(4) [OF m] by simp
  then obtain e where "e \<in> set es" "sample (\<lambda>c. True) 0 e = Some (max_idx ?b)"
    by (auto simp: filter_empty_conv)
  with sample_current [OF _ assms(2)] show ?thesis by blast
qed

lemma walker_round_decreases:
  assumes "walker_round es = Emit ob es'"
  shows "sum_list (map remaining es') < sum_list (map remaining es)"
proof -
  let ?b = "count_bases es (\<lambda>c. True) 0"
  from assms have cov: "MIN_COVERAGE \<le> coverage ?b"
    by (auto simp: walker_round_def Let_def split: if_splits)
  from assms cov have ob: "idx_to_base (max_idx ?b) = Inr ob"
    by (auto simp: walker_round_def Let_def split: if_splits sum.splits)
  from assms cov ob obtain nm where ra: "realign_all ob nm es = Inr es'"
    by (auto simp: walker_round_def Let_def split: if_splits sum.splits)
  from cov have "0 < coverage ?b" by (simp add: MIN_COVERAGE_def)
  from realign_all_remaining_less [OF ra majority_base_present [OF this ob]] show ?thesis .
qed


function get_extension_mv_realign_loop ::
  "Extension list \<Rightarrow> string \<Rightarrow> error + (string \<times> Extension list)" where
  "get_extension_mv_realign_loop extensions contig_ext =
     (case walker_round extensions of
        Stop \<Rightarrow> Inr (contig_ext, extensions)
      | Fail x \<Rightarrow> Inl x
      | Emit output_base extensions' \<Rightarrow>
          get_extension_mv_realign_loop extensions' (contig_ext @ [output_base]))"
  by pat_completeness auto
termination
proof (relation "measure (\<lambda>(es, acc). sum_list (map remaining es))")
  show "wf (measure (\<lambda>(es, acc). sum_list (map remaining es)))" by simp
next
  fix extensions :: "Extension list" and contig_ext :: string and x31 x32
  assume "walker_round extensions = Emit x31 x32"
  from walker_round_decreases [OF this]
  show "((x32, contig_ext @ [x31]), extensions, contig_ext)
          \<in> measure (\<lambda>(es, acc). sum_list (map remaining es))" by simp
qed

declare get_extension_mv_realign_loop.simps [simp del]

definition get_extension_mv_realign :: "Extension list \<Rightarrow> error + (string \<times> Extension list)" where
  "get_extension_mv_realign extensions = get_extension_mv_realign_loop extensions []"


section \<open>Refinement loop\<close>

text \<open>
  The effects of \<open>extend_contig\<close> on the outside world are recorded as events, in the
  order in which they happen.
\<close>

datatype event =
  write_fasta_contig string
  | write_fasta_reads "string list" "string list"
  | aligner_index
  | aligner_align bool
  | read_sam

text \<open>
  What \<open>extend_contig\<close> receives besides the contig and its alignments: the table from
  read names to ids, the names and the sequences of the reads, and the external aligner,
  given by the alignment records found in the SAM file it writes for a contig and a set of
  reads (or by its failure).
\<close>

record environment =
  read_name_to_id :: "string \<rightharpoonup> nat"
  read_ids :: "string list"
  read_seqs :: "string list"
  aligner :: "string \<Rightarrow> string list \<Rightarrow> string list \<Rightarrow> error + BamAlignmentRecord list"

record loop_state =
  contig_seq :: string
  left_extensions :: "Extension list"
  right_extensions :: "Extension list"
  should_ext_left :: bool
  should_ext_right :: bool
  total_left_ext :: int
  total_right_ext :: int
  events :: "event list"

subsection \<open>Walker pass\<close>

text \<open>
  The first half of the loop body: both walkers, the two flags with their clamp, and the
  new contig sequence.
\<close>

definition extend_left :: "loop_state \<Rightarrow> error + (string \<times> loop_state)" where
  "extend_left st =
     (if should_ext_left st
      then (case get_extension_mv_realign (left_extensions st) of
              Inl x \<Rightarrow> Inl x
            | Inr (ext, extensions') \<Rightarrow>
                Inr (rev ext,
                     st\<lparr>left_extensions := extensions',
                        should_ext_left := (rev ext \<noteq> []),
                        total_left_ext := total_left_ext st + int (length (rev ext))\<rparr>))
      else Inr ([], st))"

definition extend_right :: "loop_state \<Rightarrow> error + (string \<times> loop_state)" where
  "extend_right st =
     (if should_ext_right st
      then (case get_extension_mv_realign (right_extensions st) of
              Inl x \<Rightarrow> Inl x
            | Inr (ext, extensions') \<Rightarrow>
                Inr (ext,
                     st\<lparr>right_extensions := extensions',
                        should_ext_right := (ext \<noteq> []),
                        total_right_ext := total_right_ext st + int (length ext)\<rparr>))
      else Inr ([], st))"

definition walker_pass :: "loop_state \<Rightarrow> error + loop_state" where
  "walker_pass st =
     (case extend_left st of
        Inl x \<Rightarrow> Inl x
      | Inr (left_extension, st1) \<Rightarrow>
          (case extend_right st1 of
             Inl x \<Rightarrow> Inl x
           | Inr (right_extension, st2) \<Rightarrow>
               Inr (st2\<lparr>should_ext_left :=
                           should_ext_left st2 \<and> total_left_ext st2 < max_ext_length,
                         should_ext_right :=
                           should_ext_right st2 \<and> total_right_ext st2 < max_ext_length,
                         contig_seq := left_extension @ contig_seq st2 @ right_extension\<rparr>)))"

subsection \<open>Dropped reads\<close>

text \<open>
  The loop that splits one side's overhangs into the survivors and the reads to realign.
  \<open>realign_reads\<close> is the \<open>vector<bool>\<close> shared by both sides; the accumulator holds it
  together with the names and sequences of the dropped reads and the flag
  \<open>will_realign\<close>.
\<close>

record realign_set =
  realign_reads :: "bool list"
  dropped_read_ids :: "string list"
  dropped_read_seqs :: "string list"
  will_realign :: bool

fun split_dropped ::
  "environment \<Rightarrow> Extension list \<Rightarrow> realign_set \<Rightarrow> Extension list
   \<Rightarrow> error + (realign_set \<times> Extension list)" where
  "split_dropped env [] rs tmp_extensions = Inr (rs, tmp_extensions)"
| "split_dropped env (ext # exts) rs tmp_extensions =
     (if is_droped ext
      then (if length (realign_reads rs) \<le> read_id ext then Inl undefined_access
            else if \<not> realign_reads rs ! read_id ext
            then (if length (read_ids env) \<le> read_id ext \<or> length (read_seqs env) \<le> read_id ext
                  then Inl undefined_access
                  else split_dropped env exts
                         (rs\<lparr>realign_reads := (realign_reads rs)[read_id ext := True],
                             dropped_read_ids := dropped_read_ids rs @ [read_ids env ! read_id ext],
                             dropped_read_seqs := dropped_read_seqs rs @ [read_seqs env ! read_id ext],
                             will_realign := True\<rparr>)
                         tmp_extensions)
            else split_dropped env exts rs tmp_extensions)
      else split_dropped env exts rs (tmp_extensions @ [ext]))"

subsection \<open>Realignment\<close>

text \<open>
  The second half of the loop body.  The result says whether the loop goes on (\<open>True\<close>)
  or is left by one of the two \<open>break\<close> statements (\<open>False\<close>).
\<close>

definition realign_dropped :: "environment \<Rightarrow> loop_state \<Rightarrow> error + (bool \<times> loop_state)" where
  "realign_dropped env st =
     (let st1 = st\<lparr>events := events st @ [write_fasta_contig (contig_seq st)]\<rparr>;
          rs0 = \<lparr>realign_reads = replicate (length (read_ids env)) False,
                 dropped_read_ids = [], dropped_read_seqs = [], will_realign = False\<rparr>
      in case split_dropped env (left_extensions st1) rs0 [] of
           Inl x \<Rightarrow> Inl x
         | Inr (rs1, tmp_left_extensions) \<Rightarrow>
             (case split_dropped env (right_extensions st1) rs1 [] of
                Inl x \<Rightarrow> Inl x
              | Inr (rs2, tmp_right_extensions) \<Rightarrow>
                  if \<not> will_realign rs2 then Inr (False, st1)
                  else (case aligner env (contig_seq st1) (dropped_read_ids rs2)
                               (dropped_read_seqs rs2) of
                          Inl x \<Rightarrow> Inl x
                        | Inr records \<Rightarrow>
                            (case find_possible_extensions records tmp_left_extensions
                                    tmp_right_extensions (read_name_to_id env)
                                    (length (contig_seq st1)) of
                               Inl x \<Rightarrow> Inl x
                             | Inr (l, r) \<Rightarrow>
                                 (let st2 = st1\<lparr>left_extensions := l, right_extensions := r,
                                                events := events st1 @
                                                  [write_fasta_reads (dropped_read_ids rs2)
                                                     (dropped_read_seqs rs2),
                                                   aligner_index, aligner_align True, read_sam]\<rparr>
                                  in Inr (\<not> (length l < MIN_COVERAGE \<and> length r < MIN_COVERAGE),
                                          st2))))))"

definition iteration :: "environment \<Rightarrow> loop_state \<Rightarrow> error + (bool \<times> loop_state)" where
  "iteration env st =
     (case walker_pass st of
        Inl x \<Rightarrow> Inl x
      | Inr st1 \<Rightarrow> realign_dropped env st1)"

subsection \<open>The loop\<close>

text \<open>
  The loop runs while one of the two flags is set.  A flag that is cleared stays cleared,
  and a flag that stays set has seen its side grow while remaining below
  \<open>max_ext_length\<close>, which bounds the number of iterations.
\<close>

definition budget :: "loop_state \<Rightarrow> nat" where
  "budget st =
     (if should_ext_left st then Suc (nat (max_ext_length - total_left_ext st)) else 0) +
     (if should_ext_right st then Suc (nat (max_ext_length - total_right_ext st)) else 0)"

lemma extend_left_flags:
  assumes "extend_left st = Inr (x, st1)"
  shows "should_ext_right st1 = should_ext_right st"
    and "total_right_ext st1 = total_right_ext st"
    and "\<not> should_ext_left st \<Longrightarrow> \<not> should_ext_left st1 \<and> total_left_ext st1 = total_left_ext st"
    and "should_ext_left st1 \<Longrightarrow> total_left_ext st < total_left_ext st1"
    and "total_left_ext st \<le> total_left_ext st1"
  using assms by (auto simp: extend_left_def split: if_splits sum.splits)

lemma extend_right_flags:
  assumes "extend_right st = Inr (x, st1)"
  shows "should_ext_left st1 = should_ext_left st"
    and "total_left_ext st1 = total_left_ext st"
    and "\<not> should_ext_right st \<Longrightarrow> \<not> should_ext_right st1 \<and> total_right_ext st1 = total_right_ext st"
    and "should_ext_right st1 \<Longrightarrow> total_right_ext st < total_right_ext st1"
    and "total_right_ext st \<le> total_right_ext st1"
  using assms by (auto simp: extend_right_def split: if_splits sum.splits)

lemma walker_pass_flags:
  assumes "walker_pass st = Inr st'"
  shows "\<not> should_ext_left st \<Longrightarrow> \<not> should_ext_left st' \<and> total_left_ext st' = total_left_ext st"
    and "should_ext_left st' \<Longrightarrow> should_ext_left st \<and> total_left_ext st < total_left_ext st' \<and> total_left_ext st' < max_ext_length"
    and "\<not> should_ext_right st \<Longrightarrow> \<not> should_ext_right st' \<and> total_right_ext st' = total_right_ext st"
    and "should_ext_right st' \<Longrightarrow> should_ext_right st \<and> total_right_ext st < total_right_ext st' \<and> total_right_ext st' < max_ext_length"
    and "total_left_ext st \<le> total_left_ext st'"
    and "total_right_ext st \<le> total_right_ext st'"
proof -
  from assms obtain x y st1 st2 where l: "extend_left st = Inr (x, st1)"
    and r: "extend_right st1 = Inr (y, st2)"
    and st': "st' = st2\<lparr>should_ext_left := should_ext_left st2 \<and> total_left_ext st2 < max_ext_length,
                         should_ext_right := should_ext_right st2 \<and> total_right_ext st2 < max_ext_length,
                         contig_seq := x @ contig_seq st2 @ y\<rparr>"
    by (auto simp: walker_pass_def split: sum.splits)
  note L = extend_left_flags [OF l] and R = extend_right_flags [OF r]
  show "\<not> should_ext_left st \<Longrightarrow> \<not> should_ext_left st' \<and> total_left_ext st' = total_left_ext st"
    using L(3) R(1,2) st' by simp
  show "should_ext_left st' \<Longrightarrow> should_ext_left st \<and> total_left_ext st < total_left_ext st' \<and> total_left_ext st' < max_ext_length"
    using L(3,4) R(1,2) st' by auto
  show "\<not> should_ext_right st \<Longrightarrow> \<not> should_ext_right st' \<and> total_right_ext st' = total_right_ext st"
    using L(1,2) R(3) st' by simp
  show "should_ext_right st' \<Longrightarrow> should_ext_right st \<and> total_right_ext st < total_right_ext st' \<and> total_right_ext st' < max_ext_length"
    using L(1,2) R(3,4) st' by auto
  show "total_left_ext st \<le> total_left_ext st'" using L(5) R(2) st' by simp
  show "total_right_ext st \<le> total_right_ext st'" using L(2) R(5) st' by simp
qed

lemma realign_dropped_flags:
  assumes "realign_dropped env st = Inr (c, st')"
  shows "should_ext_left st' = should_ext_left st" "should_ext_right st' = should_ext_right st"
    "total_left_ext st' = total_left_ext st" "total_right_ext st' = total_right_ext st"
    "contig_seq st' = contig_seq st"
  using assms by (auto simp: realign_dropped_def Let_def split: sum.splits if_splits prod.splits)

lemma iteration_budget:
  assumes "iteration env st = Inr (c, st')" and "should_ext_left st \<or> should_ext_right st"
  shows "budget st' < budget st"
proof -
  from assms(1) obtain st1 where w: "walker_pass st = Inr st1" and r: "realign_dropped env st1 = Inr (c, st')"
    by (auto simp: iteration_def split: sum.splits)
  note W = walker_pass_flags [OF w] and R = realign_dropped_flags [OF r]
  have l: "(if should_ext_left st1 then Suc (nat (max_ext_length - total_left_ext st1)) else 0)
        \<le> (if should_ext_left st then Suc (nat (max_ext_length - total_left_ext st)) else 0)"
    using W(1,2) by auto
  have ls: "should_ext_left st \<Longrightarrow> (if should_ext_left st1 then Suc (nat (max_ext_length - total_left_ext st1)) else 0)
        < (if should_ext_left st then Suc (nat (max_ext_length - total_left_ext st)) else 0)"
    using W(2) by auto
  have r: "(if should_ext_right st1 then Suc (nat (max_ext_length - total_right_ext st1)) else 0)
        \<le> (if should_ext_right st then Suc (nat (max_ext_length - total_right_ext st)) else 0)"
    using W(3,4) by auto
  have rs: "should_ext_right st \<Longrightarrow> (if should_ext_right st1 then Suc (nat (max_ext_length - total_right_ext st1)) else 0)
        < (if should_ext_right st then Suc (nat (max_ext_length - total_right_ext st)) else 0)"
    using W(4) by auto
  have "budget st1 < budget st"
    unfolding budget_def using assms(2) l ls r rs by (metis add_le_less_mono add_less_le_mono)
  moreover have "budget st' = budget st1"
    unfolding budget_def R(1-4) by (rule refl)
  ultimately show ?thesis by simp
qed

function extend_loop :: "environment \<Rightarrow> loop_state \<Rightarrow> error + loop_state" where
  "extend_loop env st =
     (if should_ext_left st \<or> should_ext_right st
      then (case iteration env st of
              Inl x \<Rightarrow> Inl x
            | Inr (continue, st') \<Rightarrow> if continue then extend_loop env st' else Inr st')
      else Inr st)"
  by pat_completeness auto
termination
proof (relation "measure (\<lambda>(env, st). budget st)")
  show "wf (measure (\<lambda>(env, st). budget st))" by simp
next
  fix env :: environment and st :: loop_state and x2 x y
  assume "should_ext_left st \<or> should_ext_right st" "iteration env st = Inr x2" "(x, y) = x2" "x"
  then have "iteration env st = Inr (x, y)" by simp
  from iteration_budget [OF this \<open>should_ext_left st \<or> should_ext_right st\<close>]
  show "((env, y), env, st) \<in> measure (\<lambda>(env, st). budget st)" by simp
qed

declare extend_loop.simps [simp del]


definition extend_contig ::
  "string \<Rightarrow> BamAlignmentRecord list \<Rightarrow> environment \<Rightarrow> error + loop_state" where
  "extend_contig contig aln_records env =
     (case find_possible_extensions aln_records [] [] (read_name_to_id env) (length contig) of
        Inl x \<Rightarrow> Inl x
      | Inr (l, r) \<Rightarrow>
          extend_loop env
            \<lparr>contig_seq = contig, left_extensions = l, right_extensions = r,
             should_ext_left = True, should_ext_right = True,
             total_left_ext = 0, total_right_ext = 0, events = []\<rparr>)"

section \<open>The earlier revision of the walker\<close>

text \<open>
  The sources hold a second, earlier revision of \<open>get_extension_mv_realign\<close>.  It differs
  from the one above in three places: \<open>MIN_COVERAGE\<close> is 10, the output base is pushed
  onto \<open>contig_ext\<close> before the look-ahead vote is taken, and an overhang is dropped when
  \<open>curr_pos >= seq.length() - 1\<close>.  The product \<open>0.6 * 10\<close> is exactly 6 in \<open>double\<close>.
\<close>

definition MIN_COVERAGE_v1 :: nat where
  "MIN_COVERAGE_v1 = 10"

definition less_than_one_left :: "Extension \<Rightarrow> bool" where
  "less_than_one_left e = (to_size_t (int (length (seq e)) - 1) \<le> curr_pos e)"

definition realign_v1 :: "char \<Rightarrow> char \<Rightarrow> Extension \<Rightarrow> error + Extension" where
  "realign_v1 output_base next_mv e =
     (if is_droped e then Inr e
      else if less_than_one_left e then Inr (e\<lparr>is_droped := True\<rparr>)
      else case string_at (seq e) (curr_pos e) of
             Inl x \<Rightarrow> Inl x
           | Inr current_base \<Rightarrow>
               (case string_at (seq e) (curr_pos e + 1) of
                  Inl x \<Rightarrow> Inl x
                | Inr next_base \<Rightarrow>
                    if current_base = output_base then Inr (do_operation match e)
                    else if current_base = next_mv then Inr (do_operation deletion_1 e)
                    else if next_base = next_mv then Inr (do_operation mismatch e)
                    else if next_base = output_base then Inr (do_operation insertion_1 e)
                    else Inr (e\<lparr>is_droped := True\<rparr>)))"

fun realign_all_v1 :: "char \<Rightarrow> char \<Rightarrow> Extension list \<Rightarrow> error + Extension list" where
  "realign_all_v1 output_base next_mv [] = Inr []"
| "realign_all_v1 output_base next_mv (e # es) =
     (case realign_v1 output_base next_mv e of
        Inl x \<Rightarrow> Inl x
      | Inr e' \<Rightarrow>
          (case realign_all_v1 output_base next_mv es of
             Inl x \<Rightarrow> Inl x
           | Inr es' \<Rightarrow> Inr (e' # es')))"

text \<open>
  One round of the earlier loop.  \<open>Stop_after_push\<close> is the \<open>break\<close> taken after the
  look-ahead test, when the output base is already part of \<open>contig_ext\<close>.
\<close>

datatype round_v1 = Stop_v1 | Stop_after_push char | Fail_v1 error | Emit_v1 char "Extension list"

definition walker_round_v1 :: "Extension list \<Rightarrow> round_v1" where
  "walker_round_v1 extensions =
     (let bases = count_bases extensions (\<lambda>c. True) 0
      in if MIN_COVERAGE_v1 \<le> coverage bases
         then (case idx_to_base (max_idx bases) of
                 Inl x \<Rightarrow> Fail_v1 x
               | Inr output_base \<Rightarrow>
                   (let next_bases = count_bases extensions (\<lambda>c. c = output_base) 1
                    in case idx_to_base (max_idx next_bases) of
                         Inl x \<Rightarrow> Fail_v1 x
                       | Inr next_mv \<Rightarrow>
                           if 10 * coverage next_bases < 6 * MIN_COVERAGE_v1
                           then Stop_after_push output_base
                           else (case realign_all_v1 output_base next_mv extensions of
                                   Inl x \<Rightarrow> Fail_v1 x
                                 | Inr extensions' \<Rightarrow> Emit_v1 output_base extensions')))
         else Stop_v1)"

lemma realign_v1_remaining_le:
  "realign_v1 ob nm e = Inr e' \<Longrightarrow> remaining e' \<le> remaining e"
  by (auto simp: realign_v1_def remaining_def do_operation_def split: if_splits sum.splits)

lemma realign_v1_remaining_less:
  "realign_v1 ob nm e = Inr e' \<Longrightarrow> \<not> is_droped e \<Longrightarrow> curr_pos e < length (seq e) \<Longrightarrow>
   seq e ! curr_pos e = ob \<Longrightarrow> remaining e' < remaining e"
  by (auto simp: realign_v1_def remaining_def do_operation_def string_at_def split: if_splits sum.splits)

lemma realign_all_v1_remaining_le:
  "realign_all_v1 ob nm es = Inr es' \<Longrightarrow> sum_list (map remaining es') \<le> sum_list (map remaining es)"
proof (induction es arbitrary: es')
  case Nil
  then show ?case by simp
next
  case (Cons e es)
  then show ?case
    by (auto split: sum.splits dest!: realign_v1_remaining_le intro: add_mono)
qed

lemma realign_all_v1_remaining_less:
  "realign_all_v1 ob nm es = Inr es' \<Longrightarrow>
   \<exists>e\<in>set es. \<not> is_droped e \<and> curr_pos e < length (seq e) \<and> seq e ! curr_pos e = ob \<Longrightarrow>
   sum_list (map remaining es') < sum_list (map remaining es)"
proof (induction es arbitrary: es')
  case Nil
  then show ?case by simp
next
  case (Cons e es)
  from Cons.prems(1) obtain e' es1 where e': "realign_v1 ob nm e = Inr e'"
    and es1: "realign_all_v1 ob nm es = Inr es1" and es': "es' = e' # es1"
    by (auto split: sum.splits)
  show ?case
  proof (cases "\<not> is_droped e \<and> curr_pos e < length (seq e) \<and> seq e ! curr_pos e = ob")
    case True
    then have "remaining e' < remaining e" using realign_v1_remaining_less [OF e'] by simp
    moreover have "sum_list (map remaining es1) \<le> sum_list (map remaining es)"
      using realign_all_v1_remaining_le [OF es1] .
    ultimately show ?thesis using es' by simp
  next
    case False
    with Cons.prems(2) have "\<exists>e\<in>set es. \<not> is_droped e \<and> curr_pos e < length (seq e) \<and> seq e ! curr_pos e = ob"
      by auto
    from Cons.IH [OF es1 this] realign_v1_remaining_le [OF e'] show ?thesis using es' by simp
  qed
qed

lemma walker_round_v1_decreases:
  assumes "walker_round_v1 es = Emit_v1 ob es'"
  shows "sum_list (map remaining es') < sum_list (map remaining es)"
proof -
  let ?b = "count_bases es (\<lambda>c. True) 0"
  from assms have cov: "MIN_COVERAGE_v1 \<le> coverage ?b"
    by (auto simp: walker_round_v1_def Let_def split: if_splits)
  from assms cov have ob: "idx_to_base (max_idx ?b) = Inr ob"
    by (auto simp: walker_round_v1_def Let_def split: if_splits sum.splits)
  from assms cov ob obtain nm where ra: "realign_all_v1 ob nm es = Inr es'"
    by (auto simp: walker_round_v1_def Let_def split: if_splits sum.splits)
  from cov have "0 < coverage ?b" by (simp add: MIN_COVERAGE_v1_def)
  from realign_all_v1_remaining_less [OF ra majority_base_present [OF this ob]] show ?thesis .
qed

function get_extension_mv_realign_loop_v1 ::
  "Extension list \<Rightarrow> string \<Rightarrow> error + (string \<times> Extension list)" where
  "get_extension_mv_realign_loop_v1 extensions contig_ext =
     (case walker_round_v1 extensions of
        Stop_v1 \<Rightarrow> Inr (contig_ext, extensions)
      | Stop_after_push output_base \<Rightarrow> Inr (contig_ext @ [output_base], extensions)
      | Fail_v1 x \<Rightarrow> Inl x
      | Emit_v1 output_base extensions' \<Rightarrow>
          get_extension_mv_realign_loop_v1 extensions' (contig_ext @ [output_base]))"
  by pat_completeness auto

termination
proof (relation "measure (\<lambda>(es, acc). sum_list (map remaining es))")
  show "wf (measure (\<lambda>(es, acc). sum_list (map remaining es)))" by simp
next
  fix extensions :: "Extension list" and contig_ext :: string and x41 x42
  assume "walker_round_v1 extensions = Emit_v1 x41 x42"
  from walker_round_v1_decreases [OF this]
  show "((x42, contig_ext @ [x41]), extensions, contig_ext)
          \<in> measure (\<lambda>(es, acc). sum_list (map remaining es))" by simp
qed

declare get_extension_mv_realign_loop_v1.simps [simp del]

definition get_extension_mv_realign_v1 :: "Extension list \<Rightarrow> error + (string \<times> Extension list)" where
  "get_extension_mv_realign_v1 extensions = get_extension_mv_realign_loop_v1 extensions []"

section \<open>Example data\<close>

text \<open>
  Alignment records, overhang lists and loop states on which the functions above are
  evaluated below.  \<open>live_overhangs i ss\<close> are live overhangs with the sequences \<open>ss\<close> and
  the read ids \<open>i\<close>, \<open>i + 1\<close>, ...; \<open>poly_A n\<close> is a run of \<open>n\<close> bases A.
\<close>

definition rec_left :: BamAlignmentRecord where
  "rec_left = \<lparr>qName = ''r2'', flag = 0, beginPos = 0,
      cigar = [\<lparr>operation = CHR ''S'', count_c = 3\<rparr>, \<lparr>operation = CHR ''M'', count_c = 5\<rparr>],
      seq_r = ''ACGTTTTT''\<rparr>"

definition rec_both :: BamAlignmentRecord where
  "rec_both = \<lparr>qName = ''r2'', flag = 0, beginPos = 0,
      cigar = [\<lparr>operation = CHR ''S'', count_c = 6\<rparr>, \<lparr>operation = CHR ''M'', count_c = 4\<rparr>,
               \<lparr>operation = CHR ''S'', count_c = 6\<rparr>],
      seq_r = ''TTTAAACCCCGGGGGG''\<rparr>"

definition rec_margin :: BamAlignmentRecord where
  "rec_margin = \<lparr>qName = ''r2'', flag = 0, beginPos = 15,
      cigar = [\<lparr>operation = CHR ''S'', count_c = 20\<rparr>, \<lparr>operation = CHR ''M'', count_c = 10\<rparr>,
               \<lparr>operation = CHR ''S'', count_c = 20\<rparr>],
      seq_r = replicate 50 CHR ''A''\<rparr>"

definition rec_short :: BamAlignmentRecord where
  "rec_short = \<lparr>qName = ''r2'', flag = 0, beginPos = 0,
      cigar = [\<lparr>operation = CHR ''S'', count_c = 6\<rparr>, \<lparr>operation = CHR ''M'', count_c = 4\<rparr>],
      seq_r = ''TTTAAACCCC''\<rparr>"

definition rec_again :: BamAlignmentRecord where
  "rec_again = \<lparr>qName = ''r2'', flag = 0, beginPos = 2,
      cigar = [\<lparr>operation = CHR ''S'', count_c = 4\<rparr>, \<lparr>operation = CHR ''M'', count_c = 4\<rparr>],
      seq_r = ''ACGTTTTT''\<rparr>"

definition rec_third :: BamAlignmentRecord where
  "rec_third = \<lparr>qName = ''r3'', flag = 0, beginPos = 2,
      cigar = [\<lparr>operation = CHR ''S'', count_c = 4\<rparr>, \<lparr>operation = CHR ''M'', count_c = 4\<rparr>],
      seq_r = ''ACGTTTTT''\<rparr>"

fun live_overhangs :: "nat \<Rightarrow> string list \<Rightarrow> Extension list" where
  "live_overhangs i [] = []"
| "live_overhangs i (s # ss) = new_Extension i s False # live_overhangs (Suc i) ss"

definition poly_A :: "nat \<Rightarrow> string" where
  "poly_A n = replicate n CHR ''A''"

text \<open>
  Five reads of 3008 bases A whose first \<open>m\<close> bases are aligned to the right end of the
  contig, and an aligner that places them at the end of a contig of 2008 bases.
\<close>

definition reads_table :: "string \<rightharpoonup> nat" where
  "reads_table = [''r0'' \<mapsto> 0, ''r1'' \<mapsto> 1, ''r2'' \<mapsto> 2, ''r3'' \<mapsto> 3, ''r4'' \<mapsto> 4]"

definition long_read_record :: "string \<Rightarrow> nat \<Rightarrow> BamAlignmentRecord" where
  "long_read_record name m =
     \<lparr>qName = name, flag = 0, beginPos = 0,
      cigar = [\<lparr>operation = CHR ''M'', count_c = m\<rparr>,
               \<lparr>operation = CHR ''S'', count_c = 3008 - m\<rparr>],
      seq_r = poly_A 3008\<rparr>"

definition long_read_records :: "nat \<Rightarrow> BamAlignmentRecord list" where
  "long_read_records m = map (\<lambda>name. long_read_record name m) [''r0'', ''r1'', ''r2'', ''r3'', ''r4'']"

definition long_reads :: environment where
  "long_reads =
     \<lparr>read_name_to_id = reads_table,
      read_ids = [''r0'', ''r1'', ''r2'', ''r3'', ''r4''],
      read_seqs = [poly_A 3008, poly_A 3008, poly_A 3008, poly_A 3008, poly_A 3008],
      aligner = (\<lambda>contig ids seqs. Inr (long_read_records 2008))\<rparr>"

definition long_overhangs :: "Extension list" where
  "long_overhangs = map (\<lambda>i. new_Extension i (poly_A 1000) False) [0, 1, 2, 3, 4]"

definition long_start :: loop_state where
  "long_start =
     \<lparr>contig_seq = poly_A 1009, left_extensions = [], right_extensions = long_overhangs,
      should_ext_left = True, should_ext_right = True,
      total_left_ext = 0, total_right_ext = 0, events = []\<rparr>"

text \<open>
  A state whose overhangs all survive the walker pass, and an environment whose aligner
  fails whenever it is called.
\<close>

definition state_no_dropout :: loop_state where
  "state_no_dropout =
     \<lparr>contig_seq = ''CCCC'', left_extensions = [],
      right_extensions = live_overhangs 0 (replicate 5 ''AANNN''),
      should_ext_left = True, should_ext_right = True,
      total_left_ext = 0, total_right_ext = 0, events = []\<rparr>"

definition failing_aligner :: environment where
  "failing_aligner =
     \<lparr>read_name_to_id = Map.empty, read_ids = [], read_seqs = [],
      aligner = (\<lambda>contig ids seqs. Inl runtime_error)\<rparr>"

section \<open>Runs of the walker and cursors inside their sequence\<close>

text \<open>
  \<open>confirmed_run es out es'\<close>: the rounds of the walker lead from the overhangs \<open>es\<close>
  to \<open>es'\<close> and emit \<open>out\<close>, and every round has passed the coverage test and the
  look-ahead test.
\<close>

inductive confirmed_run :: "Extension list \<Rightarrow> string \<Rightarrow> Extension list \<Rightarrow> bool" where
  no_round: "confirmed_run es [] es"
| one_round:
    "MIN_COVERAGE \<le> coverage (count_bases es (\<lambda>c. True) 0) \<Longrightarrow>
     idx_to_base (max_idx (count_bases es (\<lambda>c. True) 0)) = Inr b \<Longrightarrow>
     6 * MIN_COVERAGE \<le> 10 * coverage (count_bases es (\<lambda>c. c = b) 1) \<Longrightarrow>
     idx_to_base (max_idx (count_bases es (\<lambda>c. c = b) 1)) = Inr nm \<Longrightarrow>
     realign_all b nm es = Inr es1 \<Longrightarrow>
     confirmed_run es1 bs es2 \<Longrightarrow>
     confirmed_run es (b # bs) es2"

text \<open>
  An overhang that, while it is live, has at least two bases and its cursor inside its
  sequence; and a list of live overhangs that all read \<open>poly_A n\<close> at the same position.
\<close>

definition inside :: "Extension \<Rightarrow> bool" where
  "inside e = (\<not> is_droped e \<longrightarrow>
                 2 \<le> length (seq e) \<and> length (seq e) < 2 ^ 64 \<and> curr_pos e < length (seq e))"

definition all_at :: "Extension list \<Rightarrow> nat \<Rightarrow> nat \<Rightarrow> bool" where
  "all_at es n p = (\<forall>e\<in>set es. seq e = poly_A n \<and> \<not> is_droped e \<and> curr_pos e = p)"

section \<open>Facts about the extractor\<close>

lemma fpe_append:
  "find_possible_extensions recs L R tbl n =
     (case find_possible_extensions recs [] [] tbl n of
        Inl e \<Rightarrow> Inl e
      | Inr (l, r) \<Rightarrow> Inr (L @ l, R @ r))"
proof (induction recs arbitrary: L R)
  case Nil
  show ?case by simp
next
  case (Cons a recs)
  show ?case
  proof (cases "left_overhang a tbl")
    case (Inl e)
    then show ?thesis by simp
  next
    case l: (Inr l)
    show ?thesis
    proof (cases "right_overhang a tbl n")
      case (Inl e)
      with l show ?thesis by simp
    next
      case r: (Inr rr)
      have a: "find_possible_extensions recs (L @ l) (R @ rr) tbl n =
          (case find_possible_extensions recs [] [] tbl n of
            Inl e \<Rightarrow> Inl e | Inr (x, y) \<Rightarrow> Inr (L @ l @ x, R @ rr @ y))"
        using Cons.IH [of "L @ l" "R @ rr"] by (simp split: sum.splits)
      have b: "find_possible_extensions recs ([] @ l) ([] @ rr) tbl n =
          (case find_possible_extensions recs [] [] tbl n of
            Inl e \<Rightarrow> Inl e | Inr (x, y) \<Rightarrow> Inr (l @ x, rr @ y))"
        using Cons.IH [of "[] @ l" "[] @ rr"] by (simp split: sum.splits)
      show ?thesis using l r a b by (simp split: sum.splits)
    qed
  qed
qed

lemma fpe_appendD:
  assumes "find_possible_extensions recs L R tbl n = Inr (L', R')"
  shows "\<exists>l r. find_possible_extensions recs [] [] tbl n = Inr (l, r) \<and> L' = L @ l \<and> R' = R @ r"
  using assms fpe_append [of recs L R tbl n] by (auto split: sum.splits)

lemma split_dropped_survivors:
  "split_dropped env exts rs tmp = Inr (rs', tmp') \<Longrightarrow>
     tmp' = tmp @ filter (\<lambda>e. \<not> is_droped e) exts"
proof (induction exts arbitrary: rs tmp)
  case Nil
  then show ?case by simp
next
  case (Cons ext exts)
  show ?case
  proof (cases "is_droped ext")
    case False
    with Cons.prems have "split_dropped env exts rs (tmp @ [ext]) = Inr (rs', tmp')" by simp
    from Cons.IH [OF this] False show ?thesis by simp
  next
    case True
    with Cons.prems obtain rs1 where "split_dropped env exts rs1 tmp = Inr (rs', tmp')"
      by (auto split: if_splits)
    from Cons.IH [OF this] True show ?thesis by simp
  qed
qed

lemmas extractor_defs =
  left_overhang_def left_candidate_def cigar_at_def UNMAPPED_def OUTER_MARGIN_def INNER_MARGIN_def
  to_uint32_def to_int32_def to_size_t_def left_len_def left_start_def max_ext_length_def substr_def
  new_Extension_def right_overhang_def right_margin_def right_len_def right_offset_def
  right_clipping_len_def used_read_size_def used_contig_size_def
  contributes_to_seq_len_def contributes_to_contig_len_def

lemma ex1: "left_overhang rec_left [''r2'' \<mapsto> 2] = Inr [new_Extension 2 ''TTTTTGCA'' False]"
  by (simp add: rec_left_def extractor_defs)

lemma ex2: "right_overhang rec_left tbl n = Inr []"
  by (simp add: rec_left_def extractor_defs)

lemma left_overhang_live:
  assumes "flag r AND UNMAPPED = 0" and "cigar r \<noteq> []" and "operation (cigar r ! 0) = CHR ''S''"
    and "0 \<le> beginPos r" and "beginPos r < INNER_MARGIN" and "beginPos r < int (count_c (cigar r ! 0))"
    and "count_c (cigar r ! 0) < 2 ^ 31" and "tbl (qName r) = Some rid"
    and "nat (left_len r) \<le> length (seq_r r)"
  shows "left_len r = int (count_c (cigar r ! 0)) - beginPos r"
    and "left_overhang r tbl =
     Inr [new_Extension rid
            (rev (if left_len r \<le> 1000 then take 1000 (seq_r r)
                  else take 1000 (drop (nat (left_len r) - 1000) (seq_r r)))) False]"
proof -
  have b: "to_uint32 (beginPos r) = beginPos r"
    using assms(4,5) by (simp add: to_uint32_def INNER_MARGIN_def)
  show l: "left_len r = int (count_c (cigar r ! 0)) - beginPos r"
    using assms(4,5,6,7) unfolding left_len_def b to_int32_def INNER_MARGIN_def
    by (simp add: mod_pos_pos_trivial)
  have c: "left_candidate r = Inr True"
    using assms b by (simp add: left_candidate_def cigar_at_def OUTER_MARGIN_def INNER_MARGIN_def)
  have s: "to_size_t (left_start r) = (if left_len r \<le> 1000 then 0 else nat (left_len r) - 1000)"
    using l assms(4,5,6,7) by (auto simp: left_start_def to_size_t_def max_ext_length_def mod_pos_pos_trivial nat_diff_distrib)
  have "to_size_t (left_start r) \<le> length (seq_r r)" using s assms(9) by auto
  then show "left_overhang r tbl =
     Inr [new_Extension rid
            (rev (if left_len r \<le> 1000 then take 1000 (seq_r r)
                  else take 1000 (drop (nat (left_len r) - 1000) (seq_r r)))) False]"
    using c assms(5,8) s by (simp add: left_overhang_def substr_def to_size_t_def max_ext_length_def)
qed

lemma left_overhang_ids:
  "left_overhang a tbl = Inr l \<Longrightarrow> l = [] \<or> (\<exists>x. l = [x] \<and> tbl (qName a) = Some (read_id x))"
  by (auto simp: left_overhang_def new_Extension_def split: sum.splits bool.splits option.splits if_splits)

lemma right_overhang_ids:
  "right_overhang a tbl n = Inr l \<Longrightarrow> l = [] \<or> (\<exists>x. l = [x] \<and> tbl (qName a) = Some (read_id x))"
  by (auto simp: right_overhang_def new_Extension_def Let_def split: sum.splits bool.splits option.splits if_splits)

lemma fpe_subseq:
  "find_possible_extensions recs [] [] tbl n = Inr (l, r) \<Longrightarrow>
     subseq (map (\<lambda>x. Some (read_id x)) l) (map (\<lambda>a. tbl (qName a)) recs) \<and>
     subseq (map (\<lambda>x. Some (read_id x)) r) (map (\<lambda>a. tbl (qName a)) recs)"
proof (induction recs arbitrary: l r)
  case Nil
  then show ?case by simp
next
  case (Cons a recs)
  from Cons.prems obtain la ra where la: "left_overhang a tbl = Inr la"
    and ra: "right_overhang a tbl n = Inr ra"
    and rest: "find_possible_extensions recs la ra tbl n = Inr (l, r)"
    by (auto split: sum.splits)
  from fpe_appendD [OF rest] obtain l' r' where f: "find_possible_extensions recs [] [] tbl n = Inr (l', r')"
    and l: "l = la @ l'" and r: "r = ra @ r'"
    by auto
  note ih = Cons.IH [OF f]
  from left_overhang_ids [OF la] have "subseq (map (\<lambda>x. Some (read_id x)) l) (map (\<lambda>a. tbl (qName a)) (a # recs))"
    using ih l by (auto intro: subseq_Cons')
  moreover
  from right_overhang_ids [OF ra] have "subseq (map (\<lambda>x. Some (read_id x)) r) (map (\<lambda>a. tbl (qName a)) (a # recs))"
    using ih r by (auto intro: subseq_Cons')
  ultimately show ?case by simp
qed

lemma subseq_distinct: "subseq xs ys \<Longrightarrow> distinct ys \<Longrightarrow> distinct xs"
  using subseqs_distinctD [of xs ys] by simp

section \<open>Facts about the walker\<close>

lemma max_idx_less: "max_idx (count_bases es p off) < 4"
  using argmax4(1) [OF count_bases_fields(1)] by (simp add: count_bases_fields(3))

lemma idx_to_base_max_idx: "\<exists>c. idx_to_base (max_idx (count_bases es p off)) = Inr c"
  using max_idx_less [of es p off] by (auto simp: idx_to_base_def)

lemma walker_round_Emit:
  "walker_round es = Emit b es1 \<longleftrightarrow>
     MIN_COVERAGE \<le> coverage (count_bases es (\<lambda>c. True) 0) \<and>
     idx_to_base (max_idx (count_bases es (\<lambda>c. True) 0)) = Inr b \<and>
     6 * MIN_COVERAGE \<le> 10 * coverage (count_bases es (\<lambda>c. c = b) 1) \<and>
     (\<exists>nm. idx_to_base (max_idx (count_bases es (\<lambda>c. c = b) 1)) = Inr nm \<and>
           realign_all b nm es = Inr es1)"
  by (auto simp: walker_round_def Let_def split: sum.splits)

lemma walker_round_Stop:
  "walker_round es = Stop \<longleftrightarrow>
     coverage (count_bases es (\<lambda>c. True) 0) < MIN_COVERAGE \<or>
     (\<exists>b. idx_to_base (max_idx (count_bases es (\<lambda>c. True) 0)) = Inr b \<and>
          10 * coverage (count_bases es (\<lambda>c. c = b) 1) < 6 * MIN_COVERAGE)"
  using idx_to_base_max_idx [of es "\<lambda>c. True" 0]
  apply (auto simp: walker_round_def Let_def split: sum.splits)
  subgoal for b using idx_to_base_max_idx [of es "\<lambda>c. c = b" 1] by auto
  done

lemma loop_confirmed:
  "get_extension_mv_realign_loop es acc = Inr (out, es') \<Longrightarrow>
     \<exists>bs. out = acc @ bs \<and> confirmed_run es bs es' \<and> walker_round es' = Stop"
proof (induction es acc rule: get_extension_mv_realign_loop.induct)
  case (1 es acc)
  show ?case
  proof (cases "walker_round es")
    case Stop
    with "1.prems" have "out = acc" "es' = es"
      by (simp_all add: get_extension_mv_realign_loop.simps [of es acc])
    with Stop show ?thesis by (auto intro: no_round)
  next
    case (Fail x)
    with "1.prems" show ?thesis by (simp add: get_extension_mv_realign_loop.simps [of es acc])
  next
    case (Emit b es1)
    with "1.prems" have "get_extension_mv_realign_loop es1 (acc @ [b]) = Inr (out, es')"
      by (simp add: get_extension_mv_realign_loop.simps [of es acc])
    from "1.IH" [OF Emit this] obtain bs where bs: "out = (acc @ [b]) @ bs"
      "confirmed_run es1 bs es'" "walker_round es' = Stop" by blast
    from Emit obtain nm where
      "MIN_COVERAGE \<le> coverage (count_bases es (\<lambda>c. True) 0)"
      "idx_to_base (max_idx (count_bases es (\<lambda>c. True) 0)) = Inr b"
      "6 * MIN_COVERAGE \<le> 10 * coverage (count_bases es (\<lambda>c. c = b) 1)"
      "idx_to_base (max_idx (count_bases es (\<lambda>c. c = b) 1)) = Inr nm"
      "realign_all b nm es = Inr es1"
      unfolding walker_round_Emit by blast
    from one_round [OF this bs(2)] bs(1,3) show ?thesis by auto
  qed
qed

lemmas walker_defs =
  walker_round_def count_bases_def Let_def NUM_BASES_def sample_def new_Extension_def
  base_to_idx_def idx_to_base_def argmax_four MIN_COVERAGE_def realign_def less_than_two_left_def
  to_size_t_def string_at_def do_operation_def

lemma upt4: "[0..<4] = [0, 1, 2, 3]"
  by (simp add: upt_rec numeral_eq_Suc)

lemma less_than_two_left_eq:
  "2 \<le> length (seq e) \<Longrightarrow> length (seq e) < 2 ^ 64 \<Longrightarrow>
     less_than_two_left e = (length (seq e) - 2 \<le> curr_pos e)"
proof -
  assume a: "2 \<le> length (seq e)" "length (seq e) < 2 ^ 64"
  have "int (length (seq e)) - 2 < 2 ^ 64" using a(2) by simp
  moreover have "0 \<le> int (length (seq e)) - 2" using a(1) by simp
  ultimately have "(int (length (seq e)) - 2) mod 2 ^ 64 = int (length (seq e)) - 2"
    by (rule_tac mod_pos_pos_trivial)
  then have "to_size_t (int (length (seq e)) - 2) = length (seq e) - 2"
    by (simp add: to_size_t_def nat_diff_distrib)
  then show ?thesis by (simp add: less_than_two_left_def)
qed

lemma realign_inside:
  assumes "inside e"
  shows "\<exists>e'. realign ob nm e = Inr e' \<and> inside e' \<and> seq e' = seq e \<and> read_id e' = read_id e"
proof (cases "is_droped e")
  case True
  with assms show ?thesis by (simp add: realign_def)
next
  case live: False
  with assms have l: "2 \<le> length (seq e)" "length (seq e) < 2 ^ 64" by (simp_all add: inside_def)
  note t = less_than_two_left_eq [OF l]
  show ?thesis
  proof (cases "length (seq e) - 2 \<le> curr_pos e")
    case True
    with live show ?thesis by (simp add: realign_def t inside_def)
  next
    case False
    then have "curr_pos e + 2 < length (seq e)" using l(1) by linarith
    with False live l show ?thesis
      by (simp add: realign_def t inside_def string_at_def do_operation_def)
  qed
qed

lemma realign_all_inside:
  "\<forall>e\<in>set es. inside e \<Longrightarrow> \<exists>es'. realign_all ob nm es = Inr es' \<and> (\<forall>e\<in>set es'. inside e)"
proof (induction es)
  case Nil
  then show ?case by simp
next
  case (Cons e es)
  from Cons.prems realign_inside [of e ob nm] obtain e' where "realign ob nm e = Inr e'" "inside e'"
    by auto
  moreover from Cons obtain es' where "realign_all ob nm es = Inr es'" "\<forall>e\<in>set es'. inside e"
    by auto
  ultimately show ?case by simp
qed

lemma walker_round_inside:
  assumes "\<forall>e\<in>set es. inside e"
  shows "walker_round es = Stop \<or> (\<exists>b es1. walker_round es = Emit b es1 \<and> (\<forall>e\<in>set es1. inside e))"
proof -
  obtain b where b: "idx_to_base (max_idx (count_bases es (\<lambda>c. True) 0)) = Inr b"
    using idx_to_base_max_idx by blast
  obtain nm where nm: "idx_to_base (max_idx (count_bases es (\<lambda>c. c = b) 1)) = Inr nm"
    using idx_to_base_max_idx by blast
  from realign_all_inside [OF assms, of b nm] obtain es1 where
    "realign_all b nm es = Inr es1" "\<forall>e\<in>set es1. inside e" by blast
  with b nm show ?thesis by (simp add: walker_round_def Let_def)
qed

lemma loop_inside:
  "\<forall>e\<in>set es. inside e \<Longrightarrow>
     \<exists>out es'. get_extension_mv_realign_loop es acc = Inr (out, es') \<and> (\<forall>e\<in>set es'. inside e)"
proof (induction es acc rule: get_extension_mv_realign_loop.induct)
  case (1 es acc)
  from walker_round_inside [OF "1.prems"] show ?case
  proof
    assume "walker_round es = Stop"
    with "1.prems" show ?thesis by (simp add: get_extension_mv_realign_loop.simps [of es acc])
  next
    assume "\<exists>b es1. walker_round es = Emit b es1 \<and> (\<forall>e\<in>set es1. inside e)"
    then obtain b es1 where e: "walker_round es = Emit b es1" and i: "\<forall>e\<in>set es1. inside e" by blast
    from "1.IH" [OF e i] e show ?thesis by (simp add: get_extension_mv_realign_loop.simps [of es acc])
  qed
qed

lemma live_overhangs_fresh:
  "e \<in> set (live_overhangs i ss) \<Longrightarrow> seq e \<in> set ss \<and> \<not> is_droped e \<and> curr_pos e = 0"
  by (induction ss arbitrary: i) (auto simp: new_Extension_def)

text \<open>
  The second end-to-end scenario of the specification: five overhangs ACGT and five
  overhangs AGT.
\<close>

lemma scenario_two:
  "get_extension_mv_realign (live_overhangs 0 (replicate 5 ''ACGT'' @ replicate 5 ''AGT'')) =
     Inr (''AG'',
          [\<lparr>read_id = 0, seq = ''ACGT'', curr_pos = 3, is_droped = False\<rparr>,
           \<lparr>read_id = 1, seq = ''ACGT'', curr_pos = 3, is_droped = False\<rparr>,
           \<lparr>read_id = 2, seq = ''ACGT'', curr_pos = 3, is_droped = False\<rparr>,
           \<lparr>read_id = 3, seq = ''ACGT'', curr_pos = 3, is_droped = False\<rparr>,
           \<lparr>read_id = 4, seq = ''ACGT'', curr_pos = 3, is_droped = False\<rparr>,
           \<lparr>read_id = 5, seq = ''AGT'', curr_pos = 1, is_droped = True\<rparr>,
           \<lparr>read_id = 6, seq = ''AGT'', curr_pos = 1, is_droped = True\<rparr>,
           \<lparr>read_id = 7, seq = ''AGT'', curr_pos = 1, is_droped = True\<rparr>,
           \<lparr>read_id = 8, seq = ''AGT'', curr_pos = 1, is_droped = True\<rparr>,
           \<lparr>read_id = 9, seq = ''AGT'', curr_pos = 1, is_droped = True\<rparr>])"
  by (simp add: get_extension_mv_realign_def get_extension_mv_realign_loop.simps walker_defs upt4 numeral_eq_Suc)

text \<open>
  In the walker of the current revision a round whose look-ahead vote falls below
  \<open>0.6 * MIN_COVERAGE\<close> ends the loop with the extension unchanged, and every base of a
  returned extension comes from a round that passed both tests.
\<close>

lemma emission_needs_both_votes:
  "(idx_to_base (max_idx (count_bases es (\<lambda>c. True) 0)) = Inr output_base \<and>
    10 * coverage (count_bases es (\<lambda>c. c = output_base) 1) < 6 * MIN_COVERAGE \<longrightarrow>
      get_extension_mv_realign_loop es contig_ext = Inr (contig_ext, es)) \<and>
   (get_extension_mv_realign es = Inr (out, es') \<longrightarrow> confirmed_run es out es')"
proof (intro conjI impI)
  assume "idx_to_base (max_idx (count_bases es (\<lambda>c. True) 0)) = Inr output_base \<and>
    10 * coverage (count_bases es (\<lambda>c. c = output_base) 1) < 6 * MIN_COVERAGE"
  then have "walker_round es = Stop" unfolding walker_round_Stop by blast
  then show "get_extension_mv_realign_loop es contig_ext = Inr (contig_ext, es)"
    by (simp add: get_extension_mv_realign_loop.simps [of es contig_ext])
next
  assume "get_extension_mv_realign es = Inr (out, es')"
  from loop_confirmed [OF this [unfolded get_extension_mv_realign_def]]
  show "confirmed_run es out es'" by simp
qed

text \<open>
The histogram and the rounds of the walker do not depend on the order of the overhangs.
\<close>

lemma filter_length_mset:
  "mset xs = mset ys \<Longrightarrow> length (filter P xs) = length (filter P ys)"
proof -
  assume "mset xs = mset ys"
  then have "mset (filter P xs) = mset (filter P ys)" by simp
  then show ?thesis by (rule mset_eq_length)
qed

lemma count_bases_mset:
  "mset xs = mset ys \<Longrightarrow> count_bases xs p off = count_bases ys p off"
  by (simp add: count_bases_def Let_def filter_length_mset [of xs ys] cong: map_cong)

lemma realign_error: "realign ob nm e = Inl x \<Longrightarrow> x = undefined_access"
  by (auto simp: realign_def string_at_def split: if_splits sum.splits)

lemma realign_all_eq:
  "realign_all ob nm es =
     (if \<forall>e\<in>set es. \<exists>e'. realign ob nm e = Inr e'
      then Inr (map (\<lambda>e. projr (realign ob nm e)) es)
      else Inl undefined_access)"
proof (induction es)
  case Nil
  show ?case by simp
next
  case (Cons e es)
  show ?case
  proof (cases "realign ob nm e")
    case (Inl y)
    with realign_error [OF Inl] show ?thesis by auto
  next
    case (Inr e')
    with Cons show ?thesis by auto
  qed
qed

lemma realign_all_mset:
  assumes "mset xs = mset ys"
  shows "(\<exists>x. realign_all ob nm xs = Inl x \<and> realign_all ob nm ys = Inl x) \<or>
         (\<exists>xs' ys'. realign_all ob nm xs = Inr xs' \<and> realign_all ob nm ys = Inr ys' \<and>
                     mset xs' = mset ys')"
proof -
  from assms have s: "set xs = set ys" by (rule mset_eq_setD)
  have "mset (map (\<lambda>e. projr (realign ob nm e)) xs) = mset (map (\<lambda>e. projr (realign ob nm e)) ys)"
    using assms by (metis mset_map)
  then show ?thesis unfolding realign_all_eq s by simp
qed

lemma walker_round_mset:
  assumes "mset xs = mset ys"
  shows "(walker_round xs = Stop \<and> walker_round ys = Stop) \<or>
         (\<exists>x. walker_round xs = Fail x \<and> walker_round ys = Fail x) \<or>
         (\<exists>b xs' ys'. walker_round xs = Emit b xs' \<and> walker_round ys = Emit b ys' \<and>
                       mset xs' = mset ys')"
proof -
  note c = count_bases_mset [OF assms]
  show ?thesis
  proof (cases "MIN_COVERAGE \<le> coverage (count_bases xs (\<lambda>c. True) 0)")
    case False
    then show ?thesis by (simp add: walker_round_def Let_def c [symmetric])
  next
    case True
    obtain b where b: "idx_to_base (max_idx (count_bases xs (\<lambda>c. True) 0)) = Inr b"
      using idx_to_base_max_idx by blast
    obtain nm where nm: "idx_to_base (max_idx (count_bases xs (\<lambda>c. c = b) 1)) = Inr nm"
      using idx_to_base_max_idx by blast
    show ?thesis
    proof (cases "10 * coverage (count_bases xs (\<lambda>c. c = b) 1) < 6 * MIN_COVERAGE")
      case l: True
      with True b nm show ?thesis by (simp add: walker_round_def Let_def c [symmetric])
    next
      case l: False
      from realign_all_mset [OF assms, of b nm] True b nm l show ?thesis
        by (auto simp: walker_round_def Let_def c [symmetric])
    qed
  qed
qed

lemma loop_mset:
  "mset xs = mset ys \<Longrightarrow>
     map_sum id fst (get_extension_mv_realign_loop xs acc) =
     map_sum id fst (get_extension_mv_realign_loop ys acc)"
proof (induction xs acc arbitrary: ys rule: get_extension_mv_realign_loop.induct)
  case (1 xs acc)
  from walker_round_mset [OF "1.prems"] show ?case
  proof (elim disjE exE conjE)
    assume "walker_round xs = Stop" "walker_round ys = Stop"
    then show ?thesis
      by (simp add: get_extension_mv_realign_loop.simps [of xs] get_extension_mv_realign_loop.simps [of ys])
  next
    fix x assume "walker_round xs = Fail x" "walker_round ys = Fail x"
    then show ?thesis
      by (simp add: get_extension_mv_realign_loop.simps [of xs] get_extension_mv_realign_loop.simps [of ys])
  next
    fix b xs' ys'
    assume e: "walker_round xs = Emit b xs'" "walker_round ys = Emit b ys'" and m: "mset xs' = mset ys'"
    from "1.IH" [OF e(1) m] e show ?thesis
      by (simp add: get_extension_mv_realign_loop.simps [of xs] get_extension_mv_realign_loop.simps [of ys])
  qed
qed

text \<open>
Overhangs that all read the same run of bases A.
\<close>

lemma length_poly_A [simp]: "length (poly_A n) = n"
  by (simp add: poly_A_def)

lemma nth_poly_A [simp]: "i < n \<Longrightarrow> poly_A n ! i = CHR ''A''"
  by (simp add: poly_A_def)

lemma take_drop_poly_A: "take k (drop j (poly_A n)) = poly_A (min k (n - j))"
  by (simp add: poly_A_def)

lemma poly_A_snoc: "poly_A n @ [CHR ''A''] = poly_A (Suc n)"
  by (simp add: poly_A_def replicate_append_same)

lemma count_bases_all_A:
  assumes "\<forall>e\<in>set es. sample p off e = Some 0"
  shows "coverage (count_bases es p off) = length es" "max_idx (count_bases es p off) = 0"
proof -
  have f: "filter (\<lambda>e. sample p off e = Some i) es = (if i = 0 then es else [])" for i
    using assms by (auto simp: filter_empty_conv filter_id_conv)
  have "count_b (count_bases es p off) = [length es, 0, 0, 0]"
    by (simp add: count_bases_def Let_def NUM_BASES_def upt4 f)
  then show "coverage (count_bases es p off) = length es" "max_idx (count_bases es p off) = 0"
    by (simp_all add: count_bases_fields(2,3) argmax_four)
qed

lemma count_bases_none:
  assumes "\<forall>e\<in>set es. sample p off e = None"
  shows "coverage (count_bases es p off) = 0"
proof -
  have f: "filter (\<lambda>e. sample p off e = Some i) es = []" for i
    using assms by (auto simp: filter_empty_conv)
  show ?thesis by (simp add: count_bases_def Let_def NUM_BASES_def upt4 f)
qed

lemma round_poly_A:
  assumes "all_at es n p" and "MIN_COVERAGE \<le> length es" and "p + 2 \<le> n" and "n < 2 ^ 64"
  shows "walker_round es =
           Emit CHR ''A'' (map (\<lambda>e. if p + 2 = n then e\<lparr>is_droped := True\<rparr>
                                    else e\<lparr>curr_pos := p + 1\<rparr>) es)"
proof -
  have s0: "\<forall>e\<in>set es. sample (\<lambda>c. True) 0 e = Some 0"
    using assms(1,3) by (auto simp: all_at_def sample_def base_to_idx_def)
  have s1: "\<forall>e\<in>set es. sample (\<lambda>c. c = CHR ''A'') (Suc 0) e = Some 0"
    using assms(1,3) by (auto simp: all_at_def sample_def base_to_idx_def)
  have r: "\<forall>e\<in>set es. realign CHR ''A'' CHR ''A'' e =
             Inr (if p + 2 = n then e\<lparr>is_droped := True\<rparr> else e\<lparr>curr_pos := p + 1\<rparr>)"
  proof
    fix e assume e: "e \<in> set es"
    with assms(1) have h: "seq e = poly_A n" "\<not> is_droped e" "curr_pos e = p"
      by (auto simp: all_at_def)
    have t: "less_than_two_left e = (n - 2 \<le> p)"
      using less_than_two_left_eq [of e] assms(3,4) h by simp
    show "realign CHR ''A'' CHR ''A'' e =
             Inr (if p + 2 = n then e\<lparr>is_droped := True\<rparr> else e\<lparr>curr_pos := p + 1\<rparr>)"
      using h t assms(3) by (auto simp: realign_def string_at_def do_operation_def)
  qed
  then have ra: "realign_all CHR ''A'' CHR ''A'' es =
      Inr (map (\<lambda>e. if p + 2 = n then e\<lparr>is_droped := True\<rparr> else e\<lparr>curr_pos := p + 1\<rparr>) es)"
    unfolding realign_all_eq by (simp cong: map_cong)
  show ?thesis
    using assms(2) ra
    by (simp add: walker_round_def Let_def count_bases_all_A [OF s0] count_bases_all_A [OF s1]
          idx_to_base_def MIN_COVERAGE_def)
qed

lemma round_all_dropped:
  assumes "\<forall>e\<in>set es. is_droped e"
  shows "walker_round es = Stop"
proof -
  have "\<forall>e\<in>set es. sample (\<lambda>c. True) 0 e = None"
    using assms by (simp add: sample_def)
  from count_bases_none [OF this] show ?thesis
    by (simp add: walker_round_def Let_def MIN_COVERAGE_def)
qed

lemma loop_poly_A:
  assumes "all_at es n p" and "MIN_COVERAGE \<le> length es" and "p + 2 \<le> n" and "n < 2 ^ 64"
  shows "get_extension_mv_realign_loop es acc =
           Inr (acc @ poly_A (n - 1 - p), map (\<lambda>e. e\<lparr>curr_pos := n - 2, is_droped := True\<rparr>) es)"
  using assms
proof (induction "n - 2 - p" arbitrary: es p acc)
  case 0
  then have p: "p + 2 = n" by simp
  let ?es' = "map (\<lambda>e. e\<lparr>is_droped := True\<rparr>) es"
  from round_poly_A [OF "0.prems"] p have r: "walker_round es = Emit CHR ''A'' ?es'" by simp
  have s: "walker_round ?es' = Stop" by (rule round_all_dropped) simp
  have "?es' = map (\<lambda>e. e\<lparr>curr_pos := n - 2, is_droped := True\<rparr>) es"
    using "0.prems"(1) p by (auto simp: all_at_def)
  moreover have "n - 1 - p = Suc 0" using p by simp
  then have "poly_A (n - 1 - p) = [CHR ''A'']" by (simp add: poly_A_def)
  ultimately show ?case
    using r s by (simp add: get_extension_mv_realign_loop.simps [of es]
        get_extension_mv_realign_loop.simps [of ?es'])
next
  case (Suc k)
  then have p: "p + 2 < n" by simp
  let ?es' = "map (\<lambda>e. e\<lparr>curr_pos := p + 1\<rparr>) es"
  from round_poly_A [OF Suc.prems] p have r: "walker_round es = Emit CHR ''A'' ?es'" by simp
  have a: "all_at ?es' n (p + 1)" using Suc.prems(1) by (auto simp: all_at_def)
  have k: "k = n - 2 - (p + 1)" using Suc.hyps(2) by simp
  have l: "MIN_COVERAGE \<le> length ?es'" using Suc.prems(2) by simp
  have q: "p + 1 + 2 \<le> n" using p by simp
  from Suc.hyps(1) [OF k a l q Suc.prems(4), of "acc @ [CHR ''A'']"]
  have "get_extension_mv_realign_loop ?es' (acc @ [CHR ''A'']) =
          Inr ((acc @ [CHR ''A'']) @ poly_A (n - 1 - (p + 1)),
               map (\<lambda>e. e\<lparr>curr_pos := n - 2, is_droped := True\<rparr>) ?es')" .
  moreover have "[CHR ''A''] @ poly_A (n - 1 - (p + 1)) = poly_A (n - 1 - p)"
    using p by (simp add: poly_A_def replicate_app_Cons_same Suc_diff_Suc flip: replicate_Suc)
  moreover have "map (\<lambda>e. e\<lparr>curr_pos := n - 2, is_droped := True\<rparr>) ?es' =
                 map (\<lambda>e. e\<lparr>curr_pos := n - 2, is_droped := True\<rparr>) es" by simp
  ultimately show ?case
    using r by (simp add: get_extension_mv_realign_loop.simps [of es])
qed

lemma walker_poly_A:
  assumes "all_at es n 0" and "MIN_COVERAGE \<le> length es" and "2 \<le> n" and "n < 2 ^ 64"
  shows "get_extension_mv_realign es =
           Inr (poly_A (n - 1), map (\<lambda>e. e\<lparr>curr_pos := n - 2, is_droped := True\<rparr>) es)"
  using loop_poly_A [OF assms(1,2) _ assms(4), of "[]"] assms(3)
  by (simp add: get_extension_mv_realign_def)

lemma poly_A_empty [simp]: "poly_A n = [] \<longleftrightarrow> n = 0"
  by (simp add: poly_A_def)

lemma walker_empty: "get_extension_mv_realign [] = Inr ([], [])"
  by (simp add: get_extension_mv_realign_def get_extension_mv_realign_loop.simps walker_defs upt4)

lemma walker_one_base:
  "get_extension_mv_realign (live_overhangs 0 (replicate 5 ''AANNN'')) =
     Inr (''A'', map (\<lambda>e. e\<lparr>curr_pos := 1\<rparr>) (live_overhangs 0 (replicate 5 ''AANNN'')))"
  by (simp add: get_extension_mv_realign_def get_extension_mv_realign_loop.simps walker_defs upt4
        numeral_eq_Suc)

section \<open>Facts about the refinement loop\<close>

lemma split_dropped_all_live:
  "\<forall>e\<in>set exts. \<not> is_droped e \<Longrightarrow> split_dropped env exts rs tmp = Inr (rs, tmp @ exts)"
  by (induction exts arbitrary: tmp) simp_all

lemma extend_left_events: "extend_left st = Inr (x, st1) \<Longrightarrow> events st1 = events st"
  by (auto simp: extend_left_def split: if_splits sum.splits)

lemma extend_right_events: "extend_right st = Inr (x, st1) \<Longrightarrow> events st1 = events st"
  by (auto simp: extend_right_def split: if_splits sum.splits)

lemma walker_pass_events: "walker_pass st = Inr st1 \<Longrightarrow> events st1 = events st"
  by (auto simp: walker_pass_def split: sum.splits dest!: extend_left_events extend_right_events)

lemma iteration_flags:
  assumes "iteration env st = Inr (c, st')"
  shows "should_ext_left st' \<Longrightarrow> total_left_ext st' < max_ext_length"
    and "should_ext_right st' \<Longrightarrow> total_right_ext st' < max_ext_length"
    and "\<not> should_ext_left st \<Longrightarrow> \<not> should_ext_left st' \<and> total_left_ext st' = total_left_ext st"
    and "\<not> should_ext_right st \<Longrightarrow> \<not> should_ext_right st' \<and> total_right_ext st' = total_right_ext st"
proof -
  from assms obtain st1 where w: "walker_pass st = Inr st1" and r: "realign_dropped env st1 = Inr (c, st')"
    by (auto simp: iteration_def split: sum.splits)
  note W = walker_pass_flags [OF w] and R = realign_dropped_flags [OF r]
  show "should_ext_left st' \<Longrightarrow> total_left_ext st' < max_ext_length" using W(2) R by simp
  show "should_ext_right st' \<Longrightarrow> total_right_ext st' < max_ext_length" using W(4) R by simp
  show "\<not> should_ext_left st \<Longrightarrow> \<not> should_ext_left st' \<and> total_left_ext st' = total_left_ext st"
    using W(1) R by simp
  show "\<not> should_ext_right st \<Longrightarrow> \<not> should_ext_right st' \<and> total_right_ext st' = total_right_ext st"
    using W(3) R by simp
qed

lemma extend_loop_frozen:
  "extend_loop env st = Inr st' \<Longrightarrow>
     (\<not> should_ext_left st \<longrightarrow> total_left_ext st' = total_left_ext st) \<and>
     (\<not> should_ext_right st \<longrightarrow> total_right_ext st' = total_right_ext st)"
proof (induction env st rule: extend_loop.induct)
  case (1 env st)
  show ?case
  proof (cases "should_ext_left st \<or> should_ext_right st")
    case False
    with "1.prems" show ?thesis by (simp add: extend_loop.simps [of env st])
  next
    case True
    with "1.prems" obtain c st1 where i: "iteration env st = Inr (c, st1)"
      by (auto simp: extend_loop.simps [of env st] split: sum.splits)
    note F = iteration_flags(3,4) [OF i]
    show ?thesis
    proof (cases c)
      case False
      with True i "1.prems" have "st' = st1" by (simp add: extend_loop.simps [of env st])
      with F show ?thesis by simp
    next
      case c: True
      with True i "1.prems" have "extend_loop env st1 = Inr st'"
        by (simp add: extend_loop.simps [of env st])
      from "1.IH" [OF True i refl c this] F show ?thesis by auto
    qed
  qed
qed

text \<open>
The run of \<open>extend_contig\<close> on the five long reads: two iterations of 999 bases each.
\<close>

lemma left_long: "left_overhang (long_read_record name m) tbl = Inr []"
  by (simp add: long_read_record_def extractor_defs)

lemma right_long_1009:
  "tbl name = Some i \<Longrightarrow>
     right_overhang (long_read_record name 1009) tbl 1009 = Inr [new_Extension i (poly_A 1000) False]"
  by (simp add: long_read_record_def extractor_defs take_drop_poly_A)

lemma right_long_2008:
  "tbl name = Some i \<Longrightarrow>
     right_overhang (long_read_record name 2008) tbl 2008 = Inr [new_Extension i (poly_A 1000) False]"
  by (simp add: long_read_record_def extractor_defs take_drop_poly_A)

lemma right_long_3007:
  "right_overhang (long_read_record name 2008) tbl 3007 = Inr []"
  by (simp add: long_read_record_def extractor_defs)

lemma fpe_1009:
  "find_possible_extensions (long_read_records 1009) [] [] reads_table 1009 = Inr ([], long_overhangs)"
  by (simp add: long_read_records_def left_long right_long_1009 reads_table_def long_overhangs_def)

lemma fpe_2008:
  "find_possible_extensions (long_read_records 2008) [] [] reads_table 2008 = Inr ([], long_overhangs)"
  by (simp add: long_read_records_def left_long right_long_2008 reads_table_def long_overhangs_def)

lemma fpe_3007:
  "find_possible_extensions (long_read_records 2008) [] [] reads_table 3007 = Inr ([], [])"
  by (simp add: long_read_records_def left_long right_long_3007)

lemma walker_long:
  "get_extension_mv_realign long_overhangs =
     Inr (poly_A 999, map (\<lambda>e. e\<lparr>curr_pos := 998, is_droped := True\<rparr>) long_overhangs)"
proof -
  have a: "all_at long_overhangs 1000 0"
    by (simp add: all_at_def long_overhangs_def new_Extension_def)
  have l: "MIN_COVERAGE \<le> length long_overhangs"
    by (simp add: MIN_COVERAGE_def long_overhangs_def)
  from walker_poly_A [OF a l] show ?thesis by simp
qed

lemma split_long:
  "split_dropped long_reads (map (\<lambda>e. e\<lparr>curr_pos := 998, is_droped := True\<rparr>) long_overhangs)
      \<lparr>realign_reads = replicate 5 False, dropped_read_ids = [], dropped_read_seqs = [],
       will_realign = False\<rparr> [] =
   Inr (\<lparr>realign_reads = [True, True, True, True, True],
         dropped_read_ids = [''r0'', ''r1'', ''r2'', ''r3'', ''r4''],
         dropped_read_seqs = [poly_A 3008, poly_A 3008, poly_A 3008, poly_A 3008, poly_A 3008],
         will_realign = True\<rparr>, [])"
proof -
  have r: "replicate 5 False = [False, False, False, False, False]"
    by (simp add: numeral_eq_Suc)
  show ?thesis
    unfolding r by (simp add: long_overhangs_def new_Extension_def long_reads_def)
qed

lemma long_first_iteration:
  "iteration long_reads long_start =
     Inr (True,
          long_start\<lparr>contig_seq := poly_A 1009 @ poly_A 999, right_extensions := long_overhangs,
                     should_ext_left := False, total_right_ext := 999,
                     events := [write_fasta_contig (poly_A 1009 @ poly_A 999),
                                write_fasta_reads [''r0'', ''r1'', ''r2'', ''r3'', ''r4'']
                                  [poly_A 3008, poly_A 3008, poly_A 3008, poly_A 3008, poly_A 3008],
                                aligner_index, aligner_align True, read_sam]\<rparr>)"
proof -
  have w: "walker_pass long_start =
     Inr (long_start\<lparr>contig_seq := poly_A 1009 @ poly_A 999,
            right_extensions := map (\<lambda>e. e\<lparr>curr_pos := 998, is_droped := True\<rparr>) long_overhangs,
            should_ext_left := False, total_right_ext := 999\<rparr>)"
    by (simp add: walker_pass_def extend_left_def extend_right_def long_start_def
          walker_empty walker_long max_ext_length_def)
  have l: "length long_overhangs = 5" by (simp add: long_overhangs_def)
  have a: "aligner long_reads = (\<lambda>contig ids seqs. Inr (long_read_records 2008))"
    "read_name_to_id long_reads = reads_table" "length (read_ids long_reads) = 5"
    by (simp_all add: long_reads_def)
  show ?thesis
    unfolding iteration_def w
    by (simp add: realign_dropped_def Let_def long_start_def a split_long fpe_2008 l MIN_COVERAGE_def)
qed

lemma long_second_iteration:
  "iteration long_reads
     (long_start\<lparr>contig_seq := poly_A 1009 @ poly_A 999, right_extensions := long_overhangs,
                     should_ext_left := False, total_right_ext := 999,
                     events := evs\<rparr>) =
     Inr (False,
          long_start\<lparr>contig_seq := (poly_A 1009 @ poly_A 999) @ poly_A 999, right_extensions := [],
                     should_ext_left := False, should_ext_right := False, total_right_ext := 1998,
                     events := evs @
                               [write_fasta_contig ((poly_A 1009 @ poly_A 999) @ poly_A 999),
                                write_fasta_reads [''r0'', ''r1'', ''r2'', ''r3'', ''r4'']
                                  [poly_A 3008, poly_A 3008, poly_A 3008, poly_A 3008, poly_A 3008],
                                aligner_index, aligner_align True, read_sam]\<rparr>)"
proof -
  have w: "walker_pass (long_start\<lparr>contig_seq := poly_A 1009 @ poly_A 999, right_extensions := long_overhangs,
                     should_ext_left := False, total_right_ext := 999,
                     events := evs\<rparr>) =
     Inr (long_start\<lparr>contig_seq := (poly_A 1009 @ poly_A 999) @ poly_A 999,
            right_extensions := map (\<lambda>e. e\<lparr>curr_pos := 998, is_droped := True\<rparr>) long_overhangs,
            should_ext_left := False, should_ext_right := False, total_right_ext := 1998,
            events := evs\<rparr>)"
    by (simp add: walker_pass_def extend_left_def extend_right_def long_start_def
          walker_long max_ext_length_def)
  have a: "aligner long_reads = (\<lambda>contig ids seqs. Inr (long_read_records 2008))"
    "read_name_to_id long_reads = reads_table" "length (read_ids long_reads) = 5"
    by (simp_all add: long_reads_def)
  show ?thesis
    unfolding iteration_def w
    by (simp add: realign_dropped_def Let_def long_start_def a split_long fpe_3007 MIN_COVERAGE_def)
qed

section \<open>Claims\<close>

text \<open>
  Claim C1: when the look-ahead coverage is below \<open>0.6 * MIN_COVERAGE\<close> the walker stops
  and the tentative output base is not part of the returned extension.  The current
  revision does so (\<open>emission_needs_both_votes\<close>).  The earlier revision pushes the base
  first: on five overhangs AC and five overhangs TC the first vote is a tie won by A with
  coverage 10, the look-ahead among the overhangs reading A has coverage 5, below 6, and
  the walker returns the extension A.
\<close>

theorem base_emitted_before_lookahead:
  "coverage (count_bases (live_overhangs 0 (replicate 5 ''AC'' @ replicate 5 ''TC''))
              (\<lambda>c. c = CHR ''A'') 1) = 5 \<and>
   get_extension_mv_realign_v1 (live_overhangs 0 (replicate 5 ''AC'' @ replicate 5 ''TC'')) =
     Inr (''A'', live_overhangs 0 (replicate 5 ''AC'' @ replicate 5 ''TC''))"
  by (simp add: get_extension_mv_realign_v1_def get_extension_mv_realign_loop_v1.simps
        walker_round_v1_def MIN_COVERAGE_v1_def walker_defs upt4 numeral_eq_Suc)

text \<open>
  Claim C2, as stated, fails: the second end-to-end scenario of the specification returns
  with the five overhangs ACGT live at \<open>curr_pos = 3\<close>, which exceeds
  \<open>len(seq) - 2 = 2\<close>; an insertion step has moved them by two.
\<close>

theorem live_cursor_behind_second_last:
  "get_extension_mv_realign (live_overhangs 0 (replicate 5 ''ACGT'' @ replicate 5 ''AGT'')) =
     Inr (''AG'',
          [\<lparr>read_id = 0, seq = ''ACGT'', curr_pos = 3, is_droped = False\<rparr>,
           \<lparr>read_id = 1, seq = ''ACGT'', curr_pos = 3, is_droped = False\<rparr>,
           \<lparr>read_id = 2, seq = ''ACGT'', curr_pos = 3, is_droped = False\<rparr>,
           \<lparr>read_id = 3, seq = ''ACGT'', curr_pos = 3, is_droped = False\<rparr>,
           \<lparr>read_id = 4, seq = ''ACGT'', curr_pos = 3, is_droped = False\<rparr>,
           \<lparr>read_id = 5, seq = ''AGT'', curr_pos = 1, is_droped = True\<rparr>,
           \<lparr>read_id = 6, seq = ''AGT'', curr_pos = 1, is_droped = True\<rparr>,
           \<lparr>read_id = 7, seq = ''AGT'', curr_pos = 1, is_droped = True\<rparr>,
           \<lparr>read_id = 8, seq = ''AGT'', curr_pos = 1, is_droped = True\<rparr>,
           \<lparr>read_id = 9, seq = ''AGT'', curr_pos = 1, is_droped = True\<rparr>]) \<and>
   \<not> (3 \<le> int (length ''ACGT'') - 2)"
  by (simp add: scenario_two)

text \<open>
  Claim C2, amended: when every live overhang has at least two bases and its cursor inside
  its sequence, a live overhang with \<open>curr_pos >= len(seq) - 2\<close> at its realignment
  step is marked dropped; a dropped overhang is neither moved nor sampled again; and the
  walker returns with every live overhang at \<open>curr_pos <= len(seq) - 1\<close>, inside its
  sequence.
\<close>

theorem cursor_stays_inside:
  assumes "\<forall>e\<in>set es. \<not> is_droped e \<longrightarrow>
             2 \<le> length (seq e) \<and> length (seq e) < 2 ^ 64 \<and> curr_pos e < length (seq e)"
  shows "(\<forall>e\<in>set es. \<not> is_droped e \<and> length (seq e) - 2 \<le> curr_pos e \<longrightarrow>
             realign output_base next_mv e = Inr (e\<lparr>is_droped := True\<rparr>)) \<and>
         (\<forall>e\<in>set es. is_droped e \<longrightarrow>
             realign output_base next_mv e = Inr e \<and> sample is_read_eligible offset e = None) \<and>
         (\<exists>out es'. get_extension_mv_realign es = Inr (out, es') \<and>
             (\<forall>e\<in>set es'. \<not> is_droped e \<longrightarrow> curr_pos e < length (seq e)))"
proof -
  from assms have i: "\<forall>e\<in>set es. inside e" by (simp add: inside_def)
  have a: "\<forall>e\<in>set es. \<not> is_droped e \<and> length (seq e) - 2 \<le> curr_pos e \<longrightarrow>
             realign output_base next_mv e = Inr (e\<lparr>is_droped := True\<rparr>)"
    using assms by (simp add: realign_def less_than_two_left_eq)
  have b: "\<forall>e\<in>set es. is_droped e \<longrightarrow>
             realign output_base next_mv e = Inr e \<and> sample is_read_eligible offset e = None"
    by (simp add: realign_def sample_def)
  from loop_inside [OF i, of "[]"]
  have c: "\<exists>out es'. get_extension_mv_realign es = Inr (out, es') \<and>
             (\<forall>e\<in>set es'. \<not> is_droped e \<longrightarrow> curr_pos e < length (seq e))"
    by (auto simp: get_extension_mv_realign_def inside_def)
  from a b c show ?thesis by blast
qed

theorem cursor_stays_inside_witness:
  "list_all (\<lambda>e. 2 \<le> length (seq e) \<and> length (seq e) < 2 ^ 64 \<and>
                 \<not> is_droped e \<and> curr_pos e < length (seq e))
     (live_overhangs 0 (replicate 5 ''ACGT'' @ replicate 5 ''AGT'')) \<and>
   (\<exists>out es'. get_extension_mv_realign (live_overhangs 0 (replicate 5 ''ACGT'' @ replicate 5 ''AGT''))
                 = Inr (out, es') \<and>
              list_all (\<lambda>e. is_droped e \<or> curr_pos e < length (seq e)) es') \<and>
   realign CHR ''G'' CHR ''T'' \<lparr>read_id = 5, seq = ''AGT'', curr_pos = 1, is_droped = False\<rparr>
     = Inr \<lparr>read_id = 5, seq = ''AGT'', curr_pos = 1, is_droped = True\<rparr>"
proof -
  let ?es = "live_overhangs 0 (replicate 5 ''ACGT'' @ replicate 5 ''AGT'')"
  have h: "\<forall>e\<in>set ?es. \<not> is_droped e \<longrightarrow>
      2 \<le> length (seq e) \<and> length (seq e) < 2 ^ 64 \<and> curr_pos e < length (seq e)"
    by (auto dest!: live_overhangs_fresh)
  have h': "list_all (\<lambda>e. 2 \<le> length (seq e) \<and> length (seq e) < 2 ^ 64 \<and>
                 \<not> is_droped e \<and> curr_pos e < length (seq e)) ?es"
    unfolding list_all_iff by (auto dest!: live_overhangs_fresh)
  have r: "realign CHR ''G'' CHR ''T'' \<lparr>read_id = 5, seq = ''AGT'', curr_pos = 1, is_droped = False\<rparr>
     = Inr \<lparr>read_id = 5, seq = ''AGT'', curr_pos = 1, is_droped = True\<rparr>"
    by (simp add: walker_defs)
  from cursor_stays_inside [OF h]
  have "\<exists>out es'. get_extension_mv_realign ?es = Inr (out, es') \<and>
              list_all (\<lambda>e. is_droped e \<or> curr_pos e < length (seq e)) es'"
    unfolding list_all_iff by blast
  with h' r show ?thesis by blast
qed

text \<open>
  Claim C3: a live left overhang is the dangling prefix of \<open>len\<close> bases, reversed
  (its last \<open>MAX_EXT\<close> bases when \<open>len > MAX_EXT\<close>).  The code takes
  \<open>seq.substr(start, max_ext_length)\<close>: for a read with the six dangling bases TTTAAA
  followed by the aligned bases CCCC it stores CCCCAAATTT, not AAATTT.
\<close>

theorem left_overhang_runs_into_alignment:
  "left_len rec_short = 6 \<and>
   left_overhang rec_short [''r2'' \<mapsto> 2] = Inr [new_Extension 2 ''CCCCAAATTT'' False]"
  by (simp add: rec_short_def extractor_defs)

text \<open>
  Claim C4, as stated, fails: five reads that dangle 1999 bases off the right end add 999
  bases in the first iteration, which leaves \<open>should_ext_right\<close> set, and 999 more after
  their realignment; \<open>total_right_ext\<close> ends at 1998.
\<close>

theorem extension_beyond_max_ext:
  "map_sum id total_right_ext (extend_contig (poly_A 1009) (long_read_records 1009) long_reads) =
     Inr 1998 \<and>
   \<not> (1998 \<le> max_ext_length)"
proof -
  have s: "should_ext_left long_start \<or> should_ext_right long_start"
    "should_ext_right (long_start\<lparr>contig_seq := poly_A 1009 @ poly_A 999, right_extensions := long_overhangs,
                     should_ext_left := False, total_right_ext := 999,
                     events := evs\<rparr>)" for evs
    by (simp_all add: long_start_def)
  have "extend_loop long_reads long_start =
     Inr (long_start\<lparr>contig_seq := (poly_A 1009 @ poly_A 999) @ poly_A 999, right_extensions := [],
                     should_ext_left := False, should_ext_right := False, total_right_ext := 1998,
                     events := [write_fasta_contig (poly_A 1009 @ poly_A 999),
                                write_fasta_reads [''r0'', ''r1'', ''r2'', ''r3'', ''r4'']
                                  [poly_A 3008, poly_A 3008, poly_A 3008, poly_A 3008, poly_A 3008],
                                aligner_index, aligner_align True, read_sam] @
                               [write_fasta_contig ((poly_A 1009 @ poly_A 999) @ poly_A 999),
                                write_fasta_reads [''r0'', ''r1'', ''r2'', ''r3'', ''r4'']
                                  [poly_A 3008, poly_A 3008, poly_A 3008, poly_A 3008, poly_A 3008],
                                aligner_index, aligner_align True, read_sam]\<rparr>)"
    apply (subst extend_loop.simps)
    apply (simp add: s long_first_iteration)
    apply (subst extend_loop.simps)
    apply (simp add: s long_second_iteration)
    done
  moreover have "extend_contig (poly_A 1009) (long_read_records 1009) long_reads =
      extend_loop long_reads long_start"
    by (simp add: extend_contig_def long_reads_def fpe_1009 long_start_def)
  ultimately show ?thesis by (simp add: long_start_def max_ext_length_def)
qed

text \<open>
  Claim C4, amended: after every iteration a flag that is still set implies that its
  side's accumulated extension is below \<open>max_ext_length\<close>, so a side is extended only
  from a total below the bound; a side whose flag is cleared is not extended in that
  iteration, keeps its flag cleared, and keeps its total until the loop returns.
\<close>

theorem extension_only_below_max_ext:
  "(iteration env st = Inr (c, st') \<longrightarrow>
      (should_ext_left st' \<longrightarrow> total_left_ext st' < max_ext_length) \<and>
      (should_ext_right st' \<longrightarrow> total_right_ext st' < max_ext_length) \<and>
      (\<not> should_ext_left st \<longrightarrow> \<not> should_ext_left st' \<and> total_left_ext st' = total_left_ext st) \<and>
      (\<not> should_ext_right st \<longrightarrow> \<not> should_ext_right st' \<and> total_right_ext st' = total_right_ext st)) \<and>
   (extend_loop env st = Inr st'' \<longrightarrow>
      (\<not> should_ext_left st \<longrightarrow> total_left_ext st'' = total_left_ext st) \<and>
      (\<not> should_ext_right st \<longrightarrow> total_right_ext st'' = total_right_ext st))"
  using iteration_flags [of env st c st'] extend_loop_frozen [of env st st''] by blast

theorem extension_only_below_max_ext_witness:
  "iteration long_reads long_start =
     Inr (True,
          long_start\<lparr>contig_seq := poly_A 1009 @ poly_A 999, right_extensions := long_overhangs,
                     should_ext_left := False, total_right_ext := 999,
                     events := [write_fasta_contig (poly_A 1009 @ poly_A 999),
                                write_fasta_reads [''r0'', ''r1'', ''r2'', ''r3'', ''r4'']
                                  [poly_A 3008, poly_A 3008, poly_A 3008, poly_A 3008, poly_A 3008],
                                aligner_index, aligner_align True, read_sam]\<rparr>) \<and>
   (999::int) < max_ext_length \<and>
   map_sum id total_left_ext
     (extend_loop long_reads
        (long_start\<lparr>contig_seq := poly_A 1009 @ poly_A 999, right_extensions := long_overhangs,
                     should_ext_left := False, total_right_ext := 999, events := []\<rparr>)) = Inr 0"
proof -
  let ?st1 = "long_start\<lparr>contig_seq := poly_A 1009 @ poly_A 999, right_extensions := long_overhangs,
                     should_ext_left := False, total_right_ext := 999,
                     events := [write_fasta_contig (poly_A 1009 @ poly_A 999),
                                write_fasta_reads [''r0'', ''r1'', ''r2'', ''r3'', ''r4'']
                                  [poly_A 3008, poly_A 3008, poly_A 3008, poly_A 3008, poly_A 3008],
                                aligner_index, aligner_align True, read_sam]\<rparr>"
  let ?st = "long_start\<lparr>contig_seq := poly_A 1009 @ poly_A 999, right_extensions := long_overhangs,
                     should_ext_left := False, total_right_ext := 999, events := []\<rparr>"
  let ?st2 = "long_start\<lparr>contig_seq := (poly_A 1009 @ poly_A 999) @ poly_A 999, right_extensions := [],
                     should_ext_left := False, should_ext_right := False, total_right_ext := 1998,
                     events := [] @
                               [write_fasta_contig ((poly_A 1009 @ poly_A 999) @ poly_A 999),
                                write_fasta_reads [''r0'', ''r1'', ''r2'', ''r3'', ''r4'']
                                  [poly_A 3008, poly_A 3008, poly_A 3008, poly_A 3008, poly_A 3008],
                                aligner_index, aligner_align True, read_sam]\<rparr>"
  have i: "iteration long_reads long_start = Inr (True, ?st1)" by (rule long_first_iteration)
  have "should_ext_right ?st" by (simp add: long_start_def)
  then have l: "extend_loop long_reads ?st = Inr ?st2"
    by (subst extend_loop.simps) (simp add: long_second_iteration)
  from extension_only_below_max_ext [of long_reads long_start True ?st1 ?st2] i
  have "total_right_ext ?st1 < max_ext_length" by (simp add: long_start_def)
  then have a: "(999::int) < max_ext_length" by (simp add: long_start_def)
  from extension_only_below_max_ext [of long_reads ?st True ?st1 ?st2] l
  have "total_left_ext ?st2 = total_left_ext ?st" by (simp add: long_start_def)
  then have "map_sum id total_left_ext (extend_loop long_reads ?st) = Inr 0"
    unfolding l by (simp add: long_start_def)
  with i a show ?thesis by blast
qed

text \<open>
  Claim C5, as stated, fails: two alignment records of the same read that both dangle off
  the left end give two left overhangs with the same read id.
\<close>

theorem read_twice_on_one_side:
  "find_possible_extensions [rec_left, rec_again] [] [] [''r2'' \<mapsto> 2] 8 =
     Inr ([new_Extension 2 ''TTTTTGCA'' False, new_Extension 2 ''TTTTTGCA'' False], []) \<and>
   \<not> distinct (map read_id [new_Extension 2 ''TTTTTGCA'' False, new_Extension 2 ''TTTTTGCA'' False])"
  by (simp add: rec_left_def rec_again_def extractor_defs)

text \<open>
  Claim C5, amended: when the alignment records handed to the extractor have pairwise
  distinct read names, which the table maps to distinct ids, every read id appears at most
  once among the overhangs the extractor produces for each side.
\<close>

theorem read_once_per_side:
  assumes "find_possible_extensions recs [] [] tbl n = Inr (l, r)"
    and "distinct (map qName recs)" and "inj_on tbl (qName ` set recs)"
  shows "distinct (map read_id l) \<and> distinct (map read_id r)"
proof -
  have d: "distinct (map (\<lambda>a. tbl (qName a)) recs)"
    using assms(2,3) by (simp add: distinct_map comp_def inj_on_def)
  from fpe_subseq [OF assms(1)] d
  have "distinct (map (\<lambda>x. Some (read_id x)) l)" "distinct (map (\<lambda>x. Some (read_id x)) r)"
    by (auto dest: subseq_distinct)
  then show ?thesis by (simp_all add: distinct_map comp_def inj_on_def)
qed

theorem read_once_per_side_witness:
  "find_possible_extensions [rec_left, rec_third] [] [] [''r2'' \<mapsto> 2, ''r3'' \<mapsto> 3] 8 =
     Inr ([new_Extension 2 ''TTTTTGCA'' False, new_Extension 3 ''TTTTTGCA'' False], []) \<and>
   distinct (map qName [rec_left, rec_third]) \<and>
   inj_on [''r2'' \<mapsto> 2, ''r3'' \<mapsto> (3::nat)] (qName ` set [rec_left, rec_third]) \<and>
   distinct (map read_id [new_Extension 2 ''TTTTTGCA'' False, new_Extension 3 ''TTTTTGCA'' False])"
proof -
  have f: "find_possible_extensions [rec_left, rec_third] [] [] [''r2'' \<mapsto> 2, ''r3'' \<mapsto> 3] 8 =
     Inr ([new_Extension 2 ''TTTTTGCA'' False, new_Extension 3 ''TTTTTGCA'' False], [])"
    by (simp add: rec_left_def rec_third_def extractor_defs)
  have d: "distinct (map qName [rec_left, rec_third])"
    by (simp add: rec_left_def rec_third_def)
  have i: "inj_on [''r2'' \<mapsto> 2, ''r3'' \<mapsto> (3::nat)] (qName ` set [rec_left, rec_third])"
    by (simp add: rec_left_def rec_third_def)
  from read_once_per_side [OF f d i] f d i show ?thesis by blast
qed

text \<open>
  Claim C6: for a mapped record, \<open>beginPos = OUTER_MARGIN\<close> is not a left candidate,
  whereas a right margin equal to \<open>OUTER_MARGIN\<close> still gives a right overhang (a dropped
  placeholder, the margin being above \<open>INNER_MARGIN\<close>); only a right margin above
  \<open>OUTER_MARGIN\<close> is skipped.
\<close>

theorem margin_tests_asymmetric:
  assumes "flag r AND UNMAPPED = 0" and "cigar r \<noteq> []"
  shows "(beginPos r = OUTER_MARGIN \<longrightarrow> left_candidate r = Inr False \<and> left_overhang r tbl = Inr []) \<and>
         (operation (last (cigar r)) = CHR ''S'' \<and> right_margin r n = OUTER_MARGIN \<and>
          0 < right_len r n \<and> to_size_t (right_offset r n) \<le> length (seq_r r) \<and>
          tbl (qName r) = Some rid \<longrightarrow>
            right_overhang r tbl n = Inr [new_Extension rid [] True]) \<and>
         (OUTER_MARGIN < right_margin r m \<longrightarrow> right_overhang r tbl m = Inr [])"
proof -
  have last_el: "cigar r ! nat (int (length (cigar r)) - 1) = last (cigar r)"
    using assms(2) by (cases "cigar r" rule: rev_cases) simp_all
  have a: "beginPos r = OUTER_MARGIN \<longrightarrow> left_candidate r = Inr False \<and> left_overhang r tbl = Inr []"
    using assms by (simp add: left_overhang_def left_candidate_def cigar_at_def)
  have b: "operation (last (cigar r)) = CHR ''S'' \<and> right_margin r n = OUTER_MARGIN \<and>
          0 < right_len r n \<and> to_size_t (right_offset r n) \<le> length (seq_r r) \<and>
          tbl (qName r) = Some rid \<longrightarrow>
            right_overhang r tbl n = Inr [new_Extension rid [] True]"
    using assms last_el
    by (simp add: right_overhang_def cigar_at_def substr_def OUTER_MARGIN_def INNER_MARGIN_def)
  have c: "OUTER_MARGIN < right_margin r m \<longrightarrow> right_overhang r tbl m = Inr []"
    using assms by (simp add: right_overhang_def cigar_at_def)
  from a b c show ?thesis by blast
qed

theorem margin_tests_asymmetric_witness:
  "flag rec_margin AND UNMAPPED = 0 \<and> cigar rec_margin \<noteq> [] \<and>
   beginPos rec_margin = OUTER_MARGIN \<and> left_overhang rec_margin [''r2'' \<mapsto> 2] = Inr [] \<and>
   operation (last (cigar rec_margin)) = CHR ''S'' \<and> right_margin rec_margin 40 = OUTER_MARGIN \<and>
   0 < right_len rec_margin 40 \<and>
   right_overhang rec_margin [''r2'' \<mapsto> 2] 40 = Inr [new_Extension 2 [] True] \<and>
   OUTER_MARGIN < right_margin rec_margin 41 \<and>
   right_overhang rec_margin [''r2'' \<mapsto> 2] 41 = Inr []"
proof -
  have h: "flag rec_margin AND UNMAPPED = 0" "cigar rec_margin \<noteq> []"
    by (simp_all add: rec_margin_def UNMAPPED_def)
  have g: "beginPos rec_margin = OUTER_MARGIN"
    "operation (last (cigar rec_margin)) = CHR ''S''" "right_margin rec_margin 40 = OUTER_MARGIN"
    "0 < right_len rec_margin 40" "to_size_t (right_offset rec_margin 40) \<le> length (seq_r rec_margin)"
    "[''r2'' \<mapsto> 2] (qName rec_margin) = Some (2::nat)" "OUTER_MARGIN < right_margin rec_margin 41"
    by (simp_all add: rec_margin_def extractor_defs)
  from margin_tests_asymmetric
         [where r = rec_margin and tbl = "[''r2'' \<mapsto> 2]" and n = 40 and rid = 2 and m = 41, OF h] h g
  show ?thesis by simp
qed

text \<open>
  Claim C7: the walker emits the same string (or fails alike) on every reordering of its
  list of overhangs.
\<close>

theorem walker_order_independent:
  assumes "mset extensions' = mset extensions"
  shows "map_sum id fst (get_extension_mv_realign extensions') =
         map_sum id fst (get_extension_mv_realign extensions)"
  using loop_mset [OF assms] by (simp add: get_extension_mv_realign_def)

theorem walker_order_independent_witness:
  "mset (live_overhangs 5 (replicate 5 ''AGT'') @ live_overhangs 0 (replicate 5 ''ACGT'')) =
     mset (live_overhangs 0 (replicate 5 ''ACGT'') @ live_overhangs 5 (replicate 5 ''AGT'')) \<and>
   map_sum id fst (get_extension_mv_realign
       (live_overhangs 5 (replicate 5 ''AGT'') @ live_overhangs 0 (replicate 5 ''ACGT''))) = Inr ''AG'' \<and>
   map_sum id fst (get_extension_mv_realign
       (live_overhangs 0 (replicate 5 ''ACGT'') @ live_overhangs 5 (replicate 5 ''AGT''))) = Inr ''AG''"
proof -
  have m: "mset (live_overhangs 5 (replicate 5 ''AGT'') @ live_overhangs 0 (replicate 5 ''ACGT'')) =
     mset (live_overhangs 0 (replicate 5 ''ACGT'') @ live_overhangs 5 (replicate 5 ''AGT''))"
    by simp
  have a: "live_overhangs 0 (replicate 5 ''ACGT'') @ live_overhangs 5 (replicate 5 ''AGT'') =
           live_overhangs 0 (replicate 5 ''ACGT'' @ replicate 5 ''AGT'')"
    by (simp add: numeral_eq_Suc)
  have "map_sum id fst (get_extension_mv_realign
       (live_overhangs 0 (replicate 5 ''ACGT'') @ live_overhangs 5 (replicate 5 ''AGT''))) = Inr ''AG''"
    unfolding a by (simp add: scenario_two)
  with walker_order_independent [OF m] m show ?thesis by simp
qed

text \<open>
  Claim C8: when no overhang of either list is dropped after the walker pass, the
  iteration leaves the loop and \<open>extend_contig\<close> returns the extended contig; the only
  effect of the iteration is the FASTA file of the contig, the aligner is not called and
  its behaviour does not matter.
\<close>

theorem no_dropout_no_aligner:
  assumes "walker_pass st = Inr st1"
    and "\<forall>e\<in>set (left_extensions st1) \<union> set (right_extensions st1). \<not> is_droped e"
  shows "iteration env st =
           Inr (False, st1\<lparr>events := events st @ [write_fasta_contig (contig_seq st1)]\<rparr>) \<and>
         (should_ext_left st \<or> should_ext_right st \<longrightarrow>
            extend_loop env st =
              Inr (st1\<lparr>events := events st @ [write_fasta_contig (contig_seq st1)]\<rparr>))"
proof -
  from assms(2) have l: "\<forall>e\<in>set (left_extensions st1). \<not> is_droped e"
    and r: "\<forall>e\<in>set (right_extensions st1). \<not> is_droped e" by auto
  have "realign_dropped env st1 =
          Inr (False, st1\<lparr>events := events st1 @ [write_fasta_contig (contig_seq st1)]\<rparr>)"
    by (simp add: realign_dropped_def Let_def split_dropped_all_live [OF l]
          split_dropped_all_live [OF r])
  with assms(1) have i: "iteration env st =
           Inr (False, st1\<lparr>events := events st @ [write_fasta_contig (contig_seq st1)]\<rparr>)"
    by (simp add: iteration_def walker_pass_events [OF assms(1)])
  then show ?thesis by (simp add: extend_loop.simps [of env st])
qed

theorem no_dropout_no_aligner_witness:
  "walker_pass state_no_dropout =
     Inr (state_no_dropout
            \<lparr>contig_seq := ''CCCCA'',
             right_extensions := map (\<lambda>e. e\<lparr>curr_pos := 1\<rparr>) (live_overhangs 0 (replicate 5 ''AANNN'')),
             should_ext_left := False, total_right_ext := 1\<rparr>) \<and>
   extend_loop failing_aligner state_no_dropout =
     Inr (state_no_dropout
            \<lparr>contig_seq := ''CCCCA'',
             right_extensions := map (\<lambda>e. e\<lparr>curr_pos := 1\<rparr>) (live_overhangs 0 (replicate 5 ''AANNN'')),
             should_ext_left := False, total_right_ext := 1,
             events := [write_fasta_contig ''CCCCA'']\<rparr>)"
proof -
  let ?st1 = "state_no_dropout
            \<lparr>contig_seq := ''CCCCA'',
             right_extensions := map (\<lambda>e. e\<lparr>curr_pos := 1\<rparr>) (live_overhangs 0 (replicate 5 ''AANNN'')),
             should_ext_left := False, total_right_ext := 1\<rparr>"
  have w: "walker_pass state_no_dropout = Inr ?st1"
    by (simp add: walker_pass_def extend_left_def extend_right_def state_no_dropout_def
          walker_empty walker_one_base max_ext_length_def)
  have d: "\<forall>e\<in>set (left_extensions ?st1) \<union> set (right_extensions ?st1). \<not> is_droped e"
    by (auto simp: state_no_dropout_def dest!: live_overhangs_fresh)
  have s: "should_ext_left state_no_dropout \<or> should_ext_right state_no_dropout"
    by (simp add: state_no_dropout_def)
  from no_dropout_no_aligner [OF w d, of failing_aligner] s w show ?thesis
    by (simp add: state_no_dropout_def)
qed

text \<open>
  Claim C9: a mapped record whose CIGAR begins and ends with a soft clip, and which
  passes the left test and the right test, adds one overhang to the left list and one to
  the right list in the same pass.
\<close>

theorem both_sides_from_one_record:
  assumes "flag r AND UNMAPPED = 0" and "cigar r \<noteq> []"
    and "operation (cigar r ! 0) = CHR ''S''" and "operation (last (cigar r)) = CHR ''S''"
    and "beginPos r < OUTER_MARGIN" and "to_uint32 (beginPos r) < int (count_c (cigar r ! 0))"
    and "to_size_t (left_start r) \<le> length (seq_r r)"
    and "right_margin r n \<le> OUTER_MARGIN" and "0 < right_len r n"
    and "to_size_t (right_offset r n) \<le> length (seq_r r)"
    and "tbl (qName r) = Some rid"
  shows "\<exists>x y. find_possible_extensions [r] L R tbl n = Inr (L @ [x], R @ [y]) \<and>
               read_id x = rid \<and> read_id y = rid"
proof -
  from assms have "\<exists>x. left_overhang r tbl = Inr [x] \<and> read_id x = rid"
    by (simp add: left_overhang_def left_candidate_def cigar_at_def substr_def new_Extension_def)
  moreover
  have "cigar r ! nat (int (length (cigar r)) - 1) = last (cigar r)"
    using assms(2) by (cases "cigar r" rule: rev_cases) simp_all
  with assms have "\<exists>y. right_overhang r tbl n = Inr [y] \<and> read_id y = rid"
    by (simp add: right_overhang_def cigar_at_def substr_def new_Extension_def Let_def)
  ultimately show ?thesis by auto
qed

theorem both_sides_from_one_record_witness:
  "find_possible_extensions [rec_both] [] [] [''r2'' \<mapsto> 2] 4 =
     Inr ([new_Extension 2 ''GGGGGGCCCCAAATTT'' False], [new_Extension 2 ''GGGGGG'' False]) \<and>
   (\<exists>x y. find_possible_extensions [rec_both] [] [] [''r2'' \<mapsto> 2] 4 = Inr ([] @ [x], [] @ [y]) \<and>
               read_id x = 2 \<and> read_id y = 2)"
proof -
  have h: "flag rec_both AND UNMAPPED = 0" "cigar rec_both \<noteq> []"
    "operation (cigar rec_both ! 0) = CHR ''S''" "operation (last (cigar rec_both)) = CHR ''S''"
    "beginPos rec_both < OUTER_MARGIN" "to_uint32 (beginPos rec_both) < int (count_c (cigar rec_both ! 0))"
    "to_size_t (left_start rec_both) \<le> length (seq_r rec_both)"
    "right_margin rec_both 4 \<le> OUTER_MARGIN" "0 < right_len rec_both 4"
    "to_size_t (right_offset rec_both 4) \<le> length (seq_r rec_both)"
    "[''r2'' \<mapsto> 2] (qName rec_both) = Some (2::nat)"
    by (simp_all add: rec_both_def extractor_defs)
  have "find_possible_extensions [rec_both] [] [] [''r2'' \<mapsto> 2] 4 =
     Inr ([new_Extension 2 ''GGGGGGCCCCAAATTT'' False], [new_Extension 2 ''GGGGGG'' False])"
    by (simp add: rec_both_def extractor_defs)
  with both_sides_from_one_record [where r = rec_both and n = 4 and L = "[]" and R = "[]"
            and tbl = "[''r2'' \<mapsto> 2]" and rid = 2, OF h]
  show ?thesis by simp
qed

text \<open>
  Claim C10: \<open>find_possible_extensions\<close> returns its two lists with the new overhangs
  appended and the entries already present untouched; after a realignment the lists of the
  next iteration are the surviving overhangs followed by the newly extracted ones.
\<close>

theorem find_possible_extensions_only_appends:
  "(find_possible_extensions recs L R tbl n = Inr (L', R') \<longrightarrow>
      (\<exists>l r. find_possible_extensions recs [] [] tbl n = Inr (l, r) \<and> L' = L @ l \<and> R' = R @ r)) \<and>
   (realign_dropped env st = Inr (c, st') \<and> events st' \<noteq> events st @ [write_fasta_contig (contig_seq st)] \<longrightarrow>
      (\<exists>records l r.
          find_possible_extensions records [] [] (read_name_to_id env) (length (contig_seq st)) = Inr (l, r) \<and>
          left_extensions st' = filter (\<lambda>e. \<not> is_droped e) (left_extensions st) @ l \<and>
          right_extensions st' = filter (\<lambda>e. \<not> is_droped e) (right_extensions st) @ r))"
proof (intro conjI impI)
  assume "find_possible_extensions recs L R tbl n = Inr (L', R')"
  then show "\<exists>l r. find_possible_extensions recs [] [] tbl n = Inr (l, r) \<and> L' = L @ l \<and> R' = R @ r"
    by (rule fpe_appendD)
next
  assume a: "realign_dropped env st = Inr (c, st') \<and> events st' \<noteq> events st @ [write_fasta_contig (contig_seq st)]"
  let ?rs0 = "\<lparr>realign_reads = replicate (length (read_ids env)) False,
                 dropped_read_ids = [], dropped_read_seqs = [], will_realign = False\<rparr>"
  from a obtain rs1 tl where l: "split_dropped env (left_extensions st) ?rs0 [] = Inr (rs1, tl)"
    by (auto simp: realign_dropped_def Let_def split: sum.splits)
  from a l obtain rs2 tr where r: "split_dropped env (right_extensions st) rs1 [] = Inr (rs2, tr)"
    by (auto simp: realign_dropped_def Let_def split: sum.splits)
  from a l r have w: "will_realign rs2"
    by (auto simp: realign_dropped_def Let_def split: sum.splits if_splits)
  from a l r w obtain records where al: "aligner env (contig_seq st) (dropped_read_ids rs2) (dropped_read_seqs rs2) = Inr records"
    by (auto simp: realign_dropped_def Let_def split: sum.splits)
  from a l r w al obtain L' R' where f: "find_possible_extensions records tl tr (read_name_to_id env) (length (contig_seq st)) = Inr (L', R')"
    and st': "left_extensions st' = L'" "right_extensions st' = R'"
    by (auto simp: realign_dropped_def Let_def split: sum.splits)
  from fpe_appendD [OF f] split_dropped_survivors [OF l] split_dropped_survivors [OF r] st'
  show "\<exists>records l r.
          find_possible_extensions records [] [] (read_name_to_id env) (length (contig_seq st)) = Inr (l, r) \<and>
          left_extensions st' = filter (\<lambda>e. \<not> is_droped e) (left_extensions st) @ l \<and>
          right_extensions st' = filter (\<lambda>e. \<not> is_droped e) (right_extensions st) @ r"
    by auto
qed

theorem find_possible_extensions_only_appends_witness:
  "find_possible_extensions [rec_left] [new_Extension 0 ''AA'' False] [] [''r2'' \<mapsto> 2] 5
     = Inr ([new_Extension 0 ''AA'' False, new_Extension 2 ''TTTTTGCA'' False], []) \<and>
   find_possible_extensions [rec_left] [] [] [''r2'' \<mapsto> 2] 5
     = Inr ([new_Extension 2 ''TTTTTGCA'' False], []) \<and>
   realign_dropped
     \<lparr>read_name_to_id = [''r2'' \<mapsto> 2], read_ids = [''r0'', ''r1'', ''r2''],
      read_seqs = [''AAAA'', ''CCCC'', ''ACGTTTTT''], aligner = (\<lambda>c ids seqs. Inr [rec_left])\<rparr>
     \<lparr>contig_seq = ''TTTTT'',
      left_extensions = [\<lparr>read_id = 2, seq = ''GCA'', curr_pos = 1, is_droped = True\<rparr>,
                         new_Extension 0 ''AA'' False],
      right_extensions = [], should_ext_left = True, should_ext_right = False,
      total_left_ext = 0, total_right_ext = 0, events = []\<rparr>
   = Inr (False,
     \<lparr>contig_seq = ''TTTTT'',
      left_extensions = [new_Extension 0 ''AA'' False, new_Extension 2 ''TTTTTGCA'' False],
      right_extensions = [], should_ext_left = True, should_ext_right = False,
      total_left_ext = 0, total_right_ext = 0,
      events = [write_fasta_contig ''TTTTT'', write_fasta_reads [''r2''] [''ACGTTTTT''],
                aligner_index, aligner_align True, read_sam]\<rparr>)"
proof -
  have a: "find_possible_extensions [rec_left] [new_Extension 0 ''AA'' False] [] [''r2'' \<mapsto> 2] 5
     = Inr ([new_Extension 0 ''AA'' False, new_Extension 2 ''TTTTTGCA'' False], [])"
    by (simp add: ex1 ex2)
  have b: "realign_dropped
     \<lparr>read_name_to_id = [''r2'' \<mapsto> 2], read_ids = [''r0'', ''r1'', ''r2''],
      read_seqs = [''AAAA'', ''CCCC'', ''ACGTTTTT''], aligner = (\<lambda>c ids seqs. Inr [rec_left])\<rparr>
     \<lparr>contig_seq = ''TTTTT'',
      left_extensions = [\<lparr>read_id = 2, seq = ''GCA'', curr_pos = 1, is_droped = True\<rparr>,
                         new_Extension 0 ''AA'' False],
      right_extensions = [], should_ext_left = True, should_ext_right = False,
      total_left_ext = 0, total_right_ext = 0, events = []\<rparr>
   = Inr (False,
     \<lparr>contig_seq = ''TTTTT'',
      left_extensions = [new_Extension 0 ''AA'' False, new_Extension 2 ''TTTTTGCA'' False],
      right_extensions = [], should_ext_left = True, should_ext_right = False,
      total_left_ext = 0, total_right_ext = 0,
      events = [write_fasta_contig ''TTTTT'', write_fasta_reads [''r2''] [''ACGTTTTT''],
                aligner_index, aligner_align True, read_sam]\<rparr>)"
    by (simp add: realign_dropped_def Let_def ex1 ex2 MIN_COVERAGE_def new_Extension_def)
  from find_possible_extensions_only_appends
         [of "[rec_left]" "[new_Extension 0 ''AA'' False]" "[]" "[''r2'' \<mapsto> 2]" 5
             "[new_Extension 0 ''AA'' False, new_Extension 2 ''TTTTTGCA'' False]" "[]"
             "\<lparr>read_name_to_id = [''r2'' \<mapsto> 2], read_ids = [''r0'', ''r1'', ''r2''],
      read_seqs = [''AAAA'', ''CCCC'', ''ACGTTTTT''], aligner = (\<lambda>c ids seqs. Inr [rec_left])\<rparr>"
             "\<lparr>contig_seq = ''TTTTT'',
      left_extensions = [\<lparr>read_id = 2, seq = ''GCA'', curr_pos = 1, is_droped = True\<rparr>,
                         new_Extension 0 ''AA'' False],
      right_extensions = [], should_ext_left = True, should_ext_right = False,
      total_left_ext = 0, total_right_ext = 0, events = []\<rparr>"]
       a b
  show ?thesis by simp
qed

end
